theory Spec2Isabelle
  imports Main "HOL-Library.Word" "HOL-Library.Multiset"
begin

unbundle bit_operations_syntax

section \<open>Data model (main.cpp, lines 16-26)\<close>

text \<open>
  \<^verbatim>\<open>std::uint64_t\<close> is a 64-bit word: \<open>+\<close> wraps around, \<open><\<close> is the unsigned order.
  Node identifiers are C++ \<^verbatim>\<open>int\<close>s used as vector indices; a negative or too large
  identifier indexes a vector out of bounds, which C++ leaves undefined, so identifiers are
  natural numbers here and every theorem about a graph assumes that its edges stay inside it.
\<close>

type_synonym u64 = "64 word"

record Edge =
  to :: nat
  weight :: u64

type_synonym Graph = "Edge list list"

text \<open>An entry of either queue: \<^verbatim>\<open>std::pair<std::uint64_t, int>\<close>, key first.\<close>

type_synonym P = "u64 \<times> nat"

datatype error = RuntimeError string | LogicError string

definition INF64 :: u64 where
  "INF64 = - 1"

section \<open>The relaxation loop body shared by both algorithms (lines 90-96 and 176-182)\<close>

text \<open>
  Both functions run the same \<^verbatim>\<open>for (const auto& edge : graph[u])\<close> loop and differ only
  in the queue that receives the push, which is the parameter \<open>qpush\<close>.
\<close>

definition relax :: "(u64 \<Rightarrow> nat \<Rightarrow> 'q \<Rightarrow> 'q) \<Rightarrow> u64 \<Rightarrow> Edge \<Rightarrow> u64 list \<times> 'q \<Rightarrow> u64 list \<times> 'q" where
  "relax qpush d edge st =
     (let nd = d + weight edge in
      if nd < fst st ! to edge
      then ((fst st)[to edge := nd], qpush nd (to edge) (snd st))
      else st)"

definition relax_edges :: "(u64 \<Rightarrow> nat \<Rightarrow> 'q \<Rightarrow> 'q) \<Rightarrow> u64 \<Rightarrow> Edge list \<Rightarrow> u64 list \<times> 'q \<Rightarrow> u64 list \<times> 'q" where
  "relax_edges qpush d edges st = fold (relax qpush d) edges st"

section \<open>Dijkstra with \<^verbatim>\<open>std::priority_queue\<close> (lines 75-100)\<close>

text \<open>
  \<^verbatim>\<open>std::priority_queue<P, std::vector<P>, std::greater<P>>\<close> is library code. Its contract is
  what is modelled: the queue holds a bag of pairs, \<^verbatim>\<open>top\<close> is the least pair in the
  lexicographic order of \<^verbatim>\<open>std::pair\<close>, and \<^verbatim>\<open>pop\<close> removes one copy of it.
\<close>

definition P_less :: "P \<Rightarrow> P \<Rightarrow> bool" where
  "P_less a b \<longleftrightarrow> fst a < fst b \<or> (fst a = fst b \<and> snd a < snd b)"

definition pq_top :: "P list \<Rightarrow> P" where
  "pq_top pq = fold (\<lambda>x m. if P_less x m then x else m) (tl pq) (hd pq)"

definition pq_pop :: "P list \<Rightarrow> P list" where
  "pq_pop pq = remove1 (pq_top pq) pq"

definition pq_push :: "u64 \<Rightarrow> nat \<Rightarrow> P list \<Rightarrow> P list" where
  "pq_push k v pq = (k, v) # pq"

partial_function (option) dijkstra_loop :: "Graph \<Rightarrow> u64 list \<Rightarrow> P list \<Rightarrow> u64 list option" where
  "dijkstra_loop graph dist pq =
     (if pq = [] then Some dist
      else
        let d = fst (pq_top pq); u = snd (pq_top pq); pq' = pq_pop pq in
        if d \<noteq> dist ! u then dijkstra_loop graph dist pq'
        else
          let st = relax_edges pq_push d (graph ! u) (dist, pq') in
          dijkstra_loop graph (fst st) (snd st))"

declare dijkstra_loop.simps [code]

definition dijkstra :: "Graph \<Rightarrow> nat \<Rightarrow> u64 list option" where
  "dijkstra graph source =
     dijkstra_loop graph ((replicate (length graph) INF64)[source := 0]) (pq_push 0 source [])"

section \<open>The radix heap (lines 103-161)\<close>

text \<open>
  The member \<^verbatim>\<open>last\<close> is the field \<open>last_key\<close> (the name \<open>last\<close> is the list function).
  The counter \<^verbatim>\<open>sz\<close> is a \<^verbatim>\<open>std::size_t\<close> that counts stored entries and is a natural number.
\<close>

record RadixHeap =
  buckets :: "P list list"
  last_key :: u64
  sz :: nat

definition RadixHeap_new :: RadixHeap where
  "RadixHeap_new = \<lparr>buckets = replicate 65 [], last_key = 0, sz = 0\<rparr>"

definition heap_empty :: "RadixHeap \<Rightarrow> bool" where
  "heap_empty h \<longleftrightarrow> sz h = 0"

definition heap_size :: "RadixHeap \<Rightarrow> nat" where
  "heap_size h = sz h"

text \<open>
  \<^verbatim>\<open>__builtin_clzll\<close> is a compiler builtin: the number of leading zero bits of a non-zero
  64-bit value, counted here from bit 63 downwards.
\<close>

definition clzll :: "u64 \<Rightarrow> nat" where
  "clzll x = length (takeWhile (\<lambda>i. \<not> bit x i) (rev [0..<64]))"

definition bucket_index :: "u64 \<Rightarrow> nat" where
  "bucket_index diff = (if diff = 0 then 0 else 64 - clzll diff)"

definition push :: "u64 \<Rightarrow> nat \<Rightarrow> RadixHeap \<Rightarrow> RadixHeap" where
  "push key val h =
     (let idx = bucket_index (key XOR last_key h) in
      h\<lparr>buckets := (buckets h)[idx := buckets h ! idx @ [(key, val)]], sz := sz h + 1\<rparr>)"

function scan_buckets :: "P list list \<Rightarrow> nat \<Rightarrow> nat" where
  "scan_buckets bs i = (if i < length bs \<and> bs ! i = [] then scan_buckets bs (i + 1) else i)"
  by pat_completeness auto
termination
  by (relation "measure (\<lambda>(bs, i). length bs - i)") auto

declare scan_buckets.simps [simp del]

definition min_key :: "P list \<Rightarrow> u64" where
  "min_key items = fold (\<lambda>item new_last. if fst item < new_last then fst item else new_last)
                        items (fst (items ! 0))"

definition redistribute :: "u64 \<Rightarrow> P list \<Rightarrow> P list list \<Rightarrow> P list list" where
  "redistribute lst items bs =
     fold (\<lambda>item bs. let idx = bucket_index (fst item XOR lst) in bs[idx := bs ! idx @ [item]])
          items bs"

definition relocate :: "RadixHeap \<Rightarrow> error + RadixHeap" where
  "relocate h =
     (let i = scan_buckets (buckets h) 1 in
      if i = length (buckets h) then Inl (LogicError ''RadixHeap is empty'')
      else
        let new_last = min_key (buckets h ! i);
            bs = redistribute new_last (buckets h ! i) (buckets h)
        in Inr (h\<lparr>buckets := bs[i := []], last_key := new_last\<rparr>))"

definition pop_back0 :: "RadixHeap \<Rightarrow> P \<times> RadixHeap" where
  "pop_back0 h =
     (last (buckets h ! 0),
      h\<lparr>buckets := (buckets h)[0 := butlast (buckets h ! 0)], sz := sz h - 1\<rparr>)"

definition pop :: "RadixHeap \<Rightarrow> error + P \<times> RadixHeap" where
  "pop h =
     (if buckets h ! 0 = []
      then (case relocate h of Inl e \<Rightarrow> Inl e | Inr h' \<Rightarrow> Inr (pop_back0 h'))
      else Inr (pop_back0 h))"

section \<open>SSSP on the radix heap (lines 163-186)\<close>

partial_function (option) bsb_loop :: "Graph \<Rightarrow> u64 list \<Rightarrow> RadixHeap \<Rightarrow> (error + u64 list) option" where
  "bsb_loop graph dist pq =
     (if heap_empty pq then Some (Inr dist)
      else
        case pop pq of
          Inl e \<Rightarrow> Some (Inl e)
        | Inr r \<Rightarrow>
            let d = fst (fst r); u = snd (fst r); pq' = snd r in
            if d \<noteq> dist ! u then bsb_loop graph dist pq'
            else
              let st = relax_edges push d (graph ! u) (dist, pq') in
              bsb_loop graph (fst st) (snd st))"

declare bsb_loop.simps [code]

definition breaking_sorting_barrier_sssp :: "Graph \<Rightarrow> nat \<Rightarrow> (error + u64 list) option" where
  "breaking_sorting_barrier_sssp graph source =
     bsb_loop graph ((replicate (length graph) INF64)[source := 0]) (push 0 source RadixHeap_new)"

text \<open>
  The same loop with a record of the calls the heap receives: every \<^verbatim>\<open>push\<close> is logged
  with its key and the value of \<^verbatim>\<open>last\<close> at the time of the call, every \<^verbatim>\<open>pop\<close> that has
  to call \<^verbatim>\<open>relocate\<close> is logged too. The log is written and never read.
\<close>

datatype event = PushCall u64 u64 | RelocateCall

definition push_traced :: "u64 \<Rightarrow> nat \<Rightarrow> RadixHeap \<times> event list \<Rightarrow> RadixHeap \<times> event list" where
  "push_traced key val q = (push key val (fst q), snd q @ [PushCall key (last_key (fst q))])"

definition pop_traced :: "RadixHeap \<times> event list \<Rightarrow> error + P \<times> RadixHeap \<times> event list" where
  "pop_traced q =
     (case pop (fst q) of
        Inl e \<Rightarrow> Inl e
      | Inr r \<Rightarrow>
          Inr (fst r, snd r, snd q @ (if buckets (fst q) ! 0 = [] then [RelocateCall] else [])))"

partial_function (option) bsb_loop_traced ::
    "Graph \<Rightarrow> u64 list \<Rightarrow> RadixHeap \<times> event list \<Rightarrow> (error + u64 list \<times> event list) option" where
  "bsb_loop_traced graph dist pq =
     (if heap_empty (fst pq) then Some (Inr (dist, snd pq))
      else
        case pop_traced pq of
          Inl e \<Rightarrow> Some (Inl e)
        | Inr r \<Rightarrow>
            let d = fst (fst r); u = snd (fst r); pq' = snd r in
            if d \<noteq> dist ! u then bsb_loop_traced graph dist pq'
            else
              let st = relax_edges push_traced d (graph ! u) (dist, pq') in
              bsb_loop_traced graph (fst st) (snd st))"

declare bsb_loop_traced.simps [code]

definition bsb_sssp_traced :: "Graph \<Rightarrow> nat \<Rightarrow> (error + u64 list \<times> event list) option" where
  "bsb_sssp_traced graph source =
     bsb_loop_traced graph ((replicate (length graph) INF64)[source := 0])
       (push_traced 0 source (RadixHeap_new, []))"

section \<open>The cross-check (lines 223-235)\<close>

text \<open>
  \<^verbatim>\<open>operator<<\<close> prints an unsigned integer in decimal; \<open>decimal\<close> is that conversion.
\<close>

fun decimal :: "nat \<Rightarrow> string" where
  "decimal n =
     (if n < 10 then [char_of (48 + n)]
      else decimal (n div 10) @ [char_of (48 + n mod 10)])"

definition mismatch_message :: "nat \<Rightarrow> u64 \<Rightarrow> u64 \<Rightarrow> string" where
  "mismatch_message i x y =
     ''Mismatch at node '' @ decimal i @ '': '' @ decimal (unat x) @ '' vs '' @ decimal (unat y)"

function verify_from :: "nat \<Rightarrow> u64 list \<Rightarrow> u64 list \<Rightarrow> error + unit" where
  "verify_from i a b =
     (if i < length a
      then (if a ! i \<noteq> b ! i then Inl (RuntimeError (mismatch_message i (a ! i) (b ! i)))
            else verify_from (i + 1) a b)
      else Inr ())"
  by pat_completeness auto
termination
  by (relation "measure (\<lambda>(i, a, b). length a - i)") auto

declare verify_from.simps [simp del]

definition verify_results :: "u64 list \<Rightarrow> u64 list \<Rightarrow> error + unit" where
  "verify_results a b =
     (if length a \<noteq> length b then Inl (RuntimeError ''Result vectors have different sizes'')
      else verify_from 0 a b)"

section \<open>Reading the graph and the main program (lines 28-72 and 244-279)\<close>

text \<open>
  The file is the list of its lines, or \<open>None\<close> when it cannot be opened. The extraction
  \<^verbatim>\<open>iss >> from >> to >> w_input\<close> is library code and is the parameter \<open>extract\<close>, which
  yields the three numbers of a line or \<open>None\<close> when the stream fails.
\<close>

type_synonym extractor = "string \<Rightarrow> (int \<times> int \<times> int) option"

fun read_lines ::
    "extractor \<Rightarrow> string list \<Rightarrow> (int \<times> int \<times> u64) list \<Rightarrow> int \<Rightarrow> error + (int \<times> int \<times> u64) list \<times> int" where
  "read_lines extract [] edges max_node = Inr (edges, max_node)"
| "read_lines extract (line # rest) edges max_node =
     (if line = [] \<or> line ! 0 = CHR ''#'' then read_lines extract rest edges max_node
      else
        case extract line of
          None \<Rightarrow> Inl (RuntimeError (''Invalid line in input file: '' @ line))
        | Some (from_id, to_id, w_input) \<Rightarrow>
            if from_id < 0 \<or> to_id < 0
            then Inl (RuntimeError (''Node ids must be non-negative: '' @ line))
            else if w_input < 0
            then Inl (RuntimeError (''Edge weights must be non-negative: '' @ line))
            else read_lines extract rest (edges @ [(from_id, to_id, word_of_int w_input)])
                   (max (max max_node from_id) to_id))"

record GraphLoadResult =
  graph :: Graph
  node_count :: int

definition add_edge :: "int \<times> int \<times> u64 \<Rightarrow> Graph \<Rightarrow> Graph" where
  "add_edge e g =
     (case e of (from_id, to_id, w) \<Rightarrow>
        g[nat from_id := g ! nat from_id @ [\<lparr>to = nat to_id, weight = w\<rparr>]])"

definition read_graph_from_file :: "extractor \<Rightarrow> string \<Rightarrow> string list option \<Rightarrow> error + GraphLoadResult" where
  "read_graph_from_file extract path file =
     (case file of
        None \<Rightarrow> Inl (RuntimeError (''Failed to open input file: '' @ path))
      | Some lines \<Rightarrow>
          (case read_lines extract lines [] (- 1) of
             Inl e \<Rightarrow> Inl e
           | Inr (edges, max_node) \<Rightarrow>
               if max_node < 0 then Inr \<lparr>graph = [], node_count = 0\<rparr>
               else Inr \<lparr>graph = fold add_edge edges (replicate (nat (max_node + 1)) []),
                         node_count = max_node + 1\<rparr>))"

text \<open>
  The \<^verbatim>\<open>try\<close> block of \<^verbatim>\<open>main\<close>. \<^verbatim>\<open>time_algorithm\<close> keeps the distances of its first
  run and only measures the others, so it is the call of the algorithm itself. The result
  is \<open>None\<close> when an algorithm does not return, \<open>Some (Inl e)\<close> for the exception
  that \<^verbatim>\<open>main\<close> reports before it returns 1, and \<open>Some (Inr ())\<close> when the results match.
\<close>

definition main_try :: "extractor \<Rightarrow> string \<Rightarrow> string list option \<Rightarrow> int \<Rightarrow> (error + unit) option" where
  "main_try extract input_path file source =
     (case read_graph_from_file extract input_path file of
        Inl e \<Rightarrow> Some (Inl e)
      | Inr loaded \<Rightarrow>
          if graph loaded = []
          then Some (Inl (RuntimeError ''Input graph is empty; provide at least one edge.''))
          else if source < 0 \<or> source \<ge> node_count loaded
          then Some (Inl (RuntimeError ''Source node is out of range for the graph''))
          else
            (case dijkstra (graph loaded) (nat source) of
               None \<Rightarrow> None
             | Some dijkstra_result \<Rightarrow>
                 (case breaking_sorting_barrier_sssp (graph loaded) (nat source) of
                    None \<Rightarrow> None
                  | Some (Inl e) \<Rightarrow> Some (Inl e)
                  | Some (Inr breaking_result) \<Rightarrow>
                      Some (verify_results dijkstra_result breaking_result))))"

section \<open>Sequences of heap operations\<close>

text \<open>
  A client of the heap calls \<^verbatim>\<open>push\<close> and \<^verbatim>\<open>pop\<close>; \<^verbatim>\<open>relocate\<close> is private and runs
  inside \<^verbatim>\<open>pop\<close>. A sequence of calls stops at the first exception.
\<close>

datatype heap_op = Push u64 nat | Pop

fun run_ops :: "heap_op list \<Rightarrow> RadixHeap \<Rightarrow> error + RadixHeap" where
  "run_ops [] h = Inr h"
| "run_ops (Push k v # ops) h = run_ops ops (push k v h)"
| "run_ops (Pop # ops) h = (case pop h of Inl e \<Rightarrow> Inl e | Inr r \<Rightarrow> run_ops ops (snd r))"

text \<open>Every key pushed in the sequence is at least \<^verbatim>\<open>last\<close> at the time of its call.\<close>

fun pushes_monotone :: "heap_op list \<Rightarrow> RadixHeap \<Rightarrow> bool" where
  "pushes_monotone [] h = True"
| "pushes_monotone (Push k v # ops) h = (last_key h \<le> k \<and> pushes_monotone ops (push k v h))"
| "pushes_monotone (Pop # ops) h =
     (case pop h of Inl e \<Rightarrow> True | Inr r \<Rightarrow> pushes_monotone ops (snd r))"

text \<open>Popping \<open>n\<close> times, collecting what comes out.\<close>

fun pop_n :: "nat \<Rightarrow> RadixHeap \<Rightarrow> error + P list \<times> RadixHeap" where
  "pop_n 0 h = Inr ([], h)"
| "pop_n (Suc n) h =
     (case pop h of
        Inl e \<Rightarrow> Inl e
      | Inr r \<Rightarrow>
          (case pop_n n (snd r) of
             Inl e \<Rightarrow> Inl e
           | Inr r' \<Rightarrow> Inr (fst r # fst r', snd r')))"

section \<open>The graphs of the scenarios\<close>

definition edge :: "nat \<Rightarrow> u64 \<Rightarrow> Edge" where
  "edge t w = \<lparr>to = t, weight = w\<rparr>"

definition scenario_A :: Graph where
  "scenario_A = [[edge 1 4, edge 2 1], [edge 3 1], [edge 1 2], []]"

definition scenario_D :: Graph where
  "scenario_D = [[edge 1 0], [edge 2 0], []]"

text \<open>
  A path of weight \<open>2^64 - 12\<close> to node 2, after which the relaxation of the edge to
  node 3 wraps around.
\<close>

definition overflow_graph :: Graph where
  "overflow_graph =
     [[edge 1 9223372036854775807], [edge 2 9223372036854775797], [edge 3 13, edge 4 2],
      [edge 4 0], [edge 5 10], []]"

section \<open>What the heap stores, and its invariants\<close>

text \<open>
  \<open>entries\<close> is the bag of stored pairs. \<open>bucket_inv\<close> is the bucket invariant: the
  entry with key \<open>k\<close> is in bucket \<open>bucket_index (k XOR last)\<close>. \<open>heap_inv\<close> adds the
  65 buckets of the constructor and the counter that agrees with the buckets.
  \<open>monotone_heap\<close> says that no stored key is below \<^verbatim>\<open>last\<close>.
\<close>

definition entries :: "RadixHeap \<Rightarrow> P multiset" where
  "entries h = mset (concat (buckets h))"

definition bucket_inv :: "RadixHeap \<Rightarrow> bool" where
  "bucket_inv h \<longleftrightarrow>
     (\<forall>i\<in>{0..<length (buckets h)}.
        \<forall>e\<in>set (buckets h ! i). bucket_index (fst e XOR last_key h) = i)"

definition heap_inv :: "RadixHeap \<Rightarrow> bool" where
  "heap_inv h \<longleftrightarrow> length (buckets h) = 65 \<and> bucket_inv h \<and> sz h = size (entries h)"

definition monotone_heap :: "RadixHeap \<Rightarrow> bool" where
  "monotone_heap h \<longleftrightarrow> (\<forall>e\<in>#entries h. last_key h \<le> fst e)"

section \<open>Concrete inputs\<close>

definition ops_example :: "heap_op list" where
  "ops_example = [Push 5 1, Push 9 2, Pop, Push 7 3]"

definition heap_example :: RadixHeap where
  "heap_example = push 5 1 (push 9 2 RadixHeap_new)"

definition extract_example :: extractor where
  "extract_example l = (if l = ''0 1 4'' then Some (0, 1, 4) else None)"

section \<open>Graphs, walks and the invariant of the relaxation loop\<close>

text \<open>
  The graphs the claims are about: every edge of a node in \<open>[0, N)\<close> ends in \<open>[0, N)\<close>.
\<close>

definition wf_graph :: "Graph \<Rightarrow> bool" where
  "wf_graph g \<longleftrightarrow> (\<forall>u\<in>{0..<length g}. \<forall>e\<in>set (g ! u). to e < length g)"

text \<open>
  \<open>walk g s v c\<close>: the graph has a walk from \<open>s\<close> to \<open>v\<close> whose weights add up to \<open>c\<close>, in
  the natural numbers, without wrap-around.
\<close>

inductive walk :: "Graph \<Rightarrow> nat \<Rightarrow> nat \<Rightarrow> nat \<Rightarrow> bool" for g s where
  walk_source: "walk g s s 0"
| walk_edge: "walk g s u c \<Longrightarrow> u < length g \<Longrightarrow> e \<in> set (g ! u) \<Longrightarrow>
              walk g s (to e) (c + unat (weight e))"

code_pred walk .

text \<open>\<open>c\<close> is the shortest distance from \<open>s\<close> to \<open>u\<close>.\<close>

definition shortest :: "Graph \<Rightarrow> nat \<Rightarrow> nat \<Rightarrow> nat \<Rightarrow> bool" where
  "shortest g s u c \<longleftrightarrow> walk g s u c \<and> (\<forall>c'. walk g s u c' \<longrightarrow> c \<le> c')"

text \<open>
  No relaxation of a settled node wraps around: the shortest distance of a node plus the
  weight of any of its edges fits in 64 bits.
\<close>

definition no_overflow :: "Graph \<Rightarrow> nat \<Rightarrow> bool" where
  "no_overflow g s \<longleftrightarrow>
     (\<forall>u c e. shortest g s u c \<and> u < length g \<and> e \<in> set (g ! u) \<longrightarrow> c + unat (weight e) < 2 ^ 64)"

text \<open>The queue seen as the bag of its entries; \<open>mpush\<close> is the push on bags.\<close>

definition mpush :: "u64 \<Rightarrow> nat \<Rightarrow> P multiset \<Rightarrow> P multiset" where
  "mpush k v Q = add_mset (k, v) Q"

text \<open>A node is done when none of its edges can lower a recorded distance.\<close>

definition done_node :: "Graph \<Rightarrow> u64 list \<Rightarrow> nat \<Rightarrow> bool" where
  "done_node g dist v \<longleftrightarrow>
     (\<forall>e\<in>set (g ! v). unat (dist ! to e) \<le> unat (dist ! v) + unat (weight e))"

text \<open>
  The invariant of the outer loop of both algorithms, over the distances and the bag of
  queue entries: the source is at 0, every finite distance is the cost of a walk, every
  node with a finite distance is either queued with that distance or done, and every
  queued node is in the graph and has a finite distance.
\<close>

definition sssp_inv :: "Graph \<Rightarrow> nat \<Rightarrow> u64 list \<Rightarrow> P multiset \<Rightarrow> bool" where
  "sssp_inv g s dist Q \<longleftrightarrow>
     length dist = length g \<and> dist ! s = 0 \<and>
     (\<forall>v<length g. dist ! v \<noteq> INF64 \<longrightarrow> walk g s v (unat (dist ! v))) \<and>
     (\<forall>v<length g. dist ! v \<noteq> INF64 \<longrightarrow> (dist ! v, v) \<in># Q \<or> done_node g dist v) \<and>
     (\<forall>x\<in>#Q. snd x < length g \<and> dist ! snd x \<noteq> INF64)"

text \<open>
  What the loop returns: every finite distance is the cost of a walk, and no walk to a
  node costs less than its recorded distance.
\<close>

definition final_ok :: "Graph \<Rightarrow> nat \<Rightarrow> u64 list \<Rightarrow> bool" where
  "final_ok g s dist \<longleftrightarrow>
     length dist = length g \<and>
     (\<forall>v<length g. (dist ! v \<noteq> INF64 \<longrightarrow> walk g s v (unat (dist ! v))) \<and>
                    (\<forall>c. walk g s v c \<longrightarrow> unat (dist ! v) \<le> c))"

text \<open>Every logged push has a key that is at least the logged value of \<^verbatim>\<open>last\<close>.\<close>

definition pushes_ok :: "event list \<Rightarrow> bool" where
  "pushes_ok lg \<longleftrightarrow>
     list_all (\<lambda>ev. case ev of PushCall key lst \<Rightarrow> lst \<le> key | RelocateCall \<Rightarrow> True) lg"

section \<open>The scenarios, by evaluation\<close>

lemma bucket_index_values:
  "bucket_index 0 = 0" "bucket_index 5 = 3" "bucket_index 9 = 4" "bucket_index 100 = 7"
  "bucket_index 12 = 4" "bucket_index 97 = 7" "bucket_index 105 = 7"
  by code_simp+

lemma replicate_65:
  "replicate 65 x =
     [x, x, x, x, x, x, x, x, x, x, x, x, x, x, x, x, x, x, x, x, x, x, x, x, x, x, x, x, x, x,
      x, x, x, x, x, x, x, x, x, x, x, x, x, x, x, x, x, x, x, x, x, x, x, x, x, x, x, x, x, x,
      x, x, x, x, x]"
  by (simp add: numeral_eq_Suc)

text \<open>
  C4 (scenario E): a fresh heap receives the keys 5, 5, 9, 100 with any four values and is
  popped four times; the four pops succeed and the keys come out as 5, 5, 9, 100. The
  values are arbitrary, so the two entries of key 5 may be told apart or not, in either
  order.
\<close>

theorem scenario_E_pop_order:
  "\<exists>es h'. pop_n 4 (push 100 v4 (push 9 v3 (push 5 v2 (push 5 v1 RadixHeap_new)))) = Inr (es, h')
     \<and> map fst es = [5, 5, 9, 100]"
  apply (simp add: RadixHeap_new_def push_def bucket_index_values replicate_65)
  apply (simp add: numeral_eq_Suc pop_def pop_back0_def relocate_def min_key_def
      redistribute_def bucket_index_values scan_buckets.simps)
  done

text \<open>
  C7 (scenario A): on the graph with the edges (0,1,4), (0,2,1), (2,1,2), (1,3,1) and
  source 0, both algorithms return the distances 0, 3, 1, 4.
\<close>

theorem scenario_A_distances:
  "dijkstra scenario_A 0 = Some [0, 3, 1, 4] \<and>
   breaking_sorting_barrier_sssp scenario_A 0 = Some (Inr [0, 3, 1, 4])"
  by code_simp

text \<open>
  C8 (scenario D): on the graph with the zero-weight edges (0,1,0) and (1,2,0) and source 0
  the radix-heap algorithm returns 0, 0, 0. The heap receives three pushes during the run,
  each with a key equal to \<^verbatim>\<open>last\<close> (both 0), and no pop calls \<^verbatim>\<open>relocate\<close>: the log of
  the run holds the three pushes and nothing else.
\<close>

theorem scenario_D_no_relocate:
  "breaking_sorting_barrier_sssp scenario_D 0 = Some (Inr [0, 0, 0]) \<and>
   bsb_sssp_traced scenario_D 0 =
     Some (Inr ([0, 0, 0], [PushCall 0 0, PushCall 0 0, PushCall 0 0]))"
  by code_simp

section \<open>The bucket index is the bit length\<close>

lemma takeWhile_bits:
  "n - length (takeWhile (\<lambda>i. \<not> P i) (rev [0..<n])) \<le> m \<longleftrightarrow> (\<forall>i. m \<le> i \<and> i < n \<longrightarrow> \<not> P i)"
proof (induction n)
  case 0
  then show ?case by simp
next
  case (Suc n)
  show ?case
  proof (cases "P n")
    case True
    then show ?thesis by (auto simp: not_less_eq_eq)
  next
    case False
    have "(\<forall>i. m \<le> i \<and> i < Suc n \<longrightarrow> \<not> P i) \<longleftrightarrow> (\<forall>i. m \<le> i \<and> i < n \<longrightarrow> \<not> P i)"
      using False by (auto simp: less_Suc_eq)
    with False Suc show ?thesis by simp
  qed
qed

lemma bucket_index_le_iff: "bucket_index d \<le> m \<longleftrightarrow> (\<forall>i\<ge>m. \<not> bit d i)"
proof (cases "d = 0")
  case True
  then show ?thesis by (simp add: bucket_index_def)
next
  case False
  have "bucket_index d \<le> m \<longleftrightarrow> (\<forall>i. m \<le> i \<and> i < 64 \<longrightarrow> \<not> bit d i)"
    using False takeWhile_bits [of 64 "bit d" m] by (simp add: bucket_index_def clzll_def)
  also have "\<dots> \<longleftrightarrow> (\<forall>i\<ge>m. \<not> bit d i)"
    using bit_imp_le_length [of d] by fastforce
  finally show ?thesis .
qed

lemma bucket_index_xor_le_iff:
  "bucket_index (a XOR b) \<le> m \<longleftrightarrow> (\<forall>i\<ge>m. bit a i = bit b i)"
  by (auto simp: bucket_index_le_iff bit_xor_iff)

lemma bucket_index_le_64: "bucket_index d \<le> 64"
  using bit_imp_le_length [of d] by (fastforce simp: bucket_index_le_iff)

lemma bucket_index_eq_0_iff: "bucket_index d = 0 \<longleftrightarrow> d = 0"
proof -
  have "bucket_index d = 0 \<longleftrightarrow> bucket_index d \<le> 0" by simp
  also have "\<dots> \<longleftrightarrow> (\<forall>i. \<not> bit d i)" using bucket_index_le_iff [of d 0] by simp
  also have "\<dots> \<longleftrightarrow> d = 0"
  proof
    assume "\<forall>i. \<not> bit d i"
    then show "d = 0" by (intro bit_eqI) simp
  qed simp
  finally show ?thesis .
qed

lemma nat_less_by_top_bit:
  fixes x y :: nat
  assumes hi: "\<forall>i>n. bit x i = bit y i" and x0: "\<not> bit x n" and y1: "bit y n"
  shows "x < y"
proof -
  have d: "drop_bit (Suc n) x = drop_bit (Suc n) y"
    using hi by (auto simp: bit_eq_iff [of "drop_bit (Suc n) x"] bit_drop_bit_eq)
  have tx: "take_bit (Suc n) x = take_bit n x"
    using x0 by (simp add: take_bit_Suc_from_most)
  have ty: "take_bit (Suc n) y = 2 ^ n + take_bit n y"
    using y1 by (simp add: take_bit_Suc_from_most)
  have lx: "take_bit n x < 2 ^ n + take_bit n y"
    by (rule less_le_trans [OF take_bit_nat_less_exp]) simp
  have "x = push_bit (Suc n) (drop_bit (Suc n) x) + take_bit (Suc n) x"
    by (simp only: bits_ident)
  also have "\<dots> < push_bit (Suc n) (drop_bit (Suc n) y) + take_bit (Suc n) y"
    by (simp only: d tx ty lx add_less_cancel_left)
  also have "\<dots> = y" by (simp only: bits_ident)
  finally show ?thesis .
qed

lemma word_less_by_top_bit:
  fixes a b :: "'a::len word"
  assumes "\<forall>i>n. bit a i = bit b i" and "\<not> bit a n" and "bit b n"
  shows "a < b"
proof -
  have "unat a < unat b"
    using assms by (intro nat_less_by_top_bit [of n]) (auto simp: bit_unsigned_iff)
  then show ?thesis by (simp add: word_less_nat_alt)
qed

text \<open>The highest bit in which two words differ decides their order.\<close>

lemma bucket_order:
  assumes "lst \<le> k1" and "lst \<le> k2"
    and "bucket_index (k1 XOR lst) < bucket_index (k2 XOR lst)"
  shows "k1 < k2"
proof -
  obtain j where j: "bucket_index (k2 XOR lst) = Suc j"
    using assms(3) by (cases "bucket_index (k2 XOR lst)") auto
  have k1: "\<forall>i\<ge>j. bit k1 i = bit lst i"
    using assms(3) j bucket_index_xor_le_iff [of k1 lst j] by simp
  have k2hi: "\<forall>i\<ge>Suc j. bit k2 i = bit lst i"
    using j bucket_index_xor_le_iff [of k2 lst "Suc j"] by simp
  have "\<not> (\<forall>i\<ge>j. bit k2 i = bit lst i)"
    using j bucket_index_xor_le_iff [of k2 lst j] by simp
  then have k2j: "bit k2 j \<noteq> bit lst j"
    using k2hi by (metis Suc_leI le_neq_implies_less)
  have "bit k2 j"
  proof (rule ccontr)
    assume "\<not> bit k2 j"
    then have "k2 < lst"
      using k2hi k2j by (intro word_less_by_top_bit [of j]) (auto simp: Suc_le_eq)
    with assms(2) show False by simp
  qed
  then show ?thesis
    using k1 k2hi k2j by (intro word_less_by_top_bit [of j]) (auto simp: Suc_le_eq)
qed


lemma bucket_inv_iff:
  "bucket_inv h \<longleftrightarrow>
     (\<forall>i<length (buckets h). \<forall>e\<in>set (buckets h ! i). bucket_index (fst e XOR last_key h) = i)"
  by (auto simp: bucket_inv_def)

lemma mset_concat_update:
  "i < length bs \<Longrightarrow> mset (concat (bs[i := ys])) + mset (bs ! i) = mset (concat bs) + mset ys"
proof (induction bs arbitrary: i)
  case Nil
  then show ?case by simp
next
  case (Cons b bs)
  show ?case
  proof (cases i)
    case 0
    then show ?thesis by simp
  next
    case (Suc j)
    with Cons.prems have "j < length bs" by simp
    from Cons.IH [OF this] Suc show ?thesis by (simp add: ac_simps)
  qed
qed

lemma mset_concat_snoc:
  "i < length bs \<Longrightarrow> mset (concat (bs[i := bs ! i @ [x]])) = add_mset x (mset (concat bs))"
  using mset_concat_update [of i bs "bs ! i @ [x]"] by simp

lemma in_entries_iff:
  "e \<in># entries h \<longleftrightarrow> (\<exists>i<length (buckets h). e \<in> set (buckets h ! i))"
  by (simp add: entries_def) (metis in_set_conv_nth)

lemma entries_empty_iff:
  "entries h = {#} \<longleftrightarrow> (\<forall>i<length (buckets h). buckets h ! i = [])"
  by (simp add: entries_def all_set_conv_all_nth)

subsection \<open>push\<close>

lemma push_fields:
  "last_key (push k v h) = last_key h" "sz (push k v h) = sz h + 1"
  "length (buckets (push k v h)) = length (buckets h)"
  by (simp_all add: push_def Let_def)

lemma entries_push:
  "length (buckets h) = 65 \<Longrightarrow> entries (push k v h) = add_mset (k, v) (entries h)"
  using bucket_index_le_64 [of "k XOR last_key h"]
  by (simp add: push_def Let_def entries_def mset_concat_snoc)

lemma bucket_inv_push:
  assumes "bucket_inv h"
  shows "bucket_inv (push k v h)"
  unfolding bucket_inv_iff
proof (intro allI impI ballI)
  fix i e
  assume i: "i < length (buckets (push k v h))" and e: "e \<in> set (buckets (push k v h) ! i)"
  let ?idx = "bucket_index (k XOR last_key h)"
  from i have i': "i < length (buckets h)" by (simp add: push_fields)
  show "bucket_index (fst e XOR last_key (push k v h)) = i"
  proof (cases "i = ?idx")
    case True
    with e i' have "e \<in> set (buckets h ! i) \<or> e = (k, v)"
      by (auto simp: push_def Let_def)
    with assms i' True show ?thesis by (auto simp: bucket_inv_iff push_fields)
  next
    case False
    with e have "e \<in> set (buckets h ! i)" by (simp add: push_def Let_def)
    with assms i' show ?thesis by (auto simp: bucket_inv_iff push_fields)
  qed
qed

lemma heap_inv_push: "heap_inv h \<Longrightarrow> heap_inv (push k v h)"
  by (simp add: heap_inv_def bucket_inv_push entries_push push_fields)

lemma monotone_heap_push:
  "length (buckets h) = 65 \<Longrightarrow> monotone_heap h \<Longrightarrow> last_key h \<le> k \<Longrightarrow> monotone_heap (push k v h)"
  by (auto simp: monotone_heap_def entries_push push_fields)

lemma heap_inv_new: "heap_inv RadixHeap_new"
  by (simp add: heap_inv_def bucket_inv_iff RadixHeap_new_def entries_def)

subsection \<open>The scan for the first non-empty bucket\<close>

lemma scan_buckets_ge: "i \<le> scan_buckets bs i"
  by (induction bs i rule: scan_buckets.induct) (subst scan_buckets.simps, auto)

lemma scan_buckets_le: "i \<le> length bs \<Longrightarrow> scan_buckets bs i \<le> length bs"
  by (induction bs i rule: scan_buckets.induct) (subst scan_buckets.simps, auto)

lemma scan_buckets_skipped: "i \<le> j \<Longrightarrow> j < scan_buckets bs i \<Longrightarrow> bs ! j = []"
proof (induction bs i rule: scan_buckets.induct)
  case (1 bs i)
  show ?case
  proof (cases "i < length bs \<and> bs ! i = []")
    case True
    show ?thesis
    proof (cases "j = i")
      case True
      with \<open>i < length bs \<and> bs ! i = []\<close> show ?thesis by simp
    next
      case False
      with "1.prems" have "i + 1 \<le> j" by simp
      moreover have "j < scan_buckets bs (i + 1)"
        using "1.prems"(2) True by (subst (asm) scan_buckets.simps) simp
      ultimately show ?thesis using "1.IH" True by blast
    qed
  next
    case False
    then have "scan_buckets bs i = i" by (subst scan_buckets.simps) auto
    with "1.prems" show ?thesis by simp
  qed
qed

lemma scan_buckets_found: "scan_buckets bs i < length bs \<Longrightarrow> bs ! scan_buckets bs i \<noteq> []"
proof (induction bs i rule: scan_buckets.induct)
  case (1 bs i)
  show ?case
  proof (cases "i < length bs \<and> bs ! i = []")
    case True
    then have eq: "scan_buckets bs i = scan_buckets bs (i + 1)"
      by (subst scan_buckets.simps) simp
    with "1.IH" "1.prems" True show ?thesis by simp
  next
    case False
    then have "scan_buckets bs i = i" by (subst scan_buckets.simps) auto
    with "1.prems" False show ?thesis by simp
  qed
qed

subsection \<open>The minimum of a bucket\<close>

lemma fold_min_le_init:
  "fold (\<lambda>item new_last. if fst item < new_last then fst item else new_last) items a \<le> (a::u64)"
proof (induction items arbitrary: a)
  case Nil
  then show ?case by simp
next
  case (Cons x xs)
  show ?case using Cons.IH [of "fst x"] Cons.IH [of a] by auto
qed

lemma fold_min_le_items:
  "e \<in> set items \<Longrightarrow>
   fold (\<lambda>item new_last. if fst item < new_last then fst item else new_last) items a \<le> (fst e::u64)"
proof (induction items arbitrary: a)
  case Nil
  then show ?case by simp
next
  case (Cons x xs)
  show ?case
  proof (cases "e = x")
    case True
    then show ?thesis
      using fold_min_le_init [of xs "fst x"] fold_min_le_init [of xs a] by auto
  next
    case False
    with Cons.prems have "e \<in> set xs" by simp
    from Cons.IH [OF this] show ?thesis by simp
  qed
qed

lemma fold_min_in:
  "fold (\<lambda>item new_last. if fst item < new_last then fst item else new_last) items a = (a::u64) \<or>
   fold (\<lambda>item new_last. if fst item < new_last then fst item else new_last) items a \<in> fst ` set items"
proof (induction items arbitrary: a)
  case Nil
  then show ?case by simp
next
  case (Cons x xs)
  show ?case using Cons.IH [of "fst x"] Cons.IH [of a] by auto
qed

lemma min_key_le: "e \<in> set items \<Longrightarrow> min_key items \<le> fst e"
  unfolding min_key_def by (rule fold_min_le_items)

lemma min_key_in:
  assumes "items \<noteq> []"
  shows "min_key items \<in> fst ` set items"
proof -
  have h: "fst (items ! 0) \<in> fst ` set items"
    using assms by (cases items) auto
  have "min_key items = fst (items ! 0) \<or> min_key items \<in> fst ` set items"
    unfolding min_key_def by (rule fold_min_in)
  then show ?thesis
  proof
    assume "min_key items = fst (items ! 0)"
    with h show ?thesis by (simp only:)
  qed
qed

subsection \<open>Redistribution\<close>

lemma redistribute_Cons:
  "redistribute lst (x # xs) bs =
     redistribute lst xs (bs[bucket_index (fst x XOR lst) := bs ! bucket_index (fst x XOR lst) @ [x]])"
  by (simp add: redistribute_def Let_def)

lemma length_redistribute: "length (redistribute lst items bs) = length bs"
proof (induction items arbitrary: bs)
  case Nil
  then show ?case by (simp add: redistribute_def)
next
  case (Cons x xs)
  then show ?case by (simp add: redistribute_Cons)
qed

lemma redistribute_nth:
  "j < length bs \<Longrightarrow>
   redistribute lst items bs ! j = bs ! j @ filter (\<lambda>e. bucket_index (fst e XOR lst) = j) items"
proof (induction items arbitrary: bs)
  case Nil
  then show ?case by (simp add: redistribute_def)
next
  case (Cons x xs)
  let ?idx = "bucket_index (fst x XOR lst)"
  let ?bs = "bs[?idx := bs ! ?idx @ [x]]"
  have "j < length ?bs" using Cons.prems by simp
  from Cons.IH [OF this] have
    "redistribute lst (x # xs) bs ! j = ?bs ! j @ filter (\<lambda>e. bucket_index (fst e XOR lst) = j) xs"
    by (simp add: redistribute_Cons)
  moreover have "?bs ! j = (if ?idx = j then bs ! j @ [x] else bs ! j)"
    using Cons.prems by (cases "?idx = j") auto
  ultimately show ?case by simp
qed

lemma mset_concat_redistribute:
  "\<forall>e\<in>set items. bucket_index (fst e XOR lst) < length bs \<Longrightarrow>
   mset (concat (redistribute lst items bs)) = mset (concat bs) + mset items"
proof (induction items arbitrary: bs)
  case Nil
  then show ?case by (simp add: redistribute_def)
next
  case (Cons x xs)
  let ?idx = "bucket_index (fst x XOR lst)"
  let ?bs = "bs[?idx := bs ! ?idx @ [x]]"
  have "\<forall>e\<in>set xs. bucket_index (fst e XOR lst) < length ?bs" using Cons.prems by simp
  from Cons.IH [OF this] have
    "mset (concat (redistribute lst (x # xs) bs)) = mset (concat ?bs) + mset xs"
    by (simp add: redistribute_Cons)
  moreover have "mset (concat ?bs) = add_mset x (mset (concat bs))"
    using Cons.prems by (intro mset_concat_snoc) simp
  ultimately show ?case by simp
qed

subsection \<open>relocate\<close>

lemma scan_nonempty:
  assumes len: "length (buckets h) = 65" and b0: "buckets h ! 0 = []" and ne: "entries h \<noteq> {#}"
  shows "0 < scan_buckets (buckets h) 1" and "scan_buckets (buckets h) 1 < 65"
    and "buckets h ! scan_buckets (buckets h) 1 \<noteq> []"
    and "\<forall>j. j < scan_buckets (buckets h) 1 \<longrightarrow> buckets h ! j = []"
proof -
  let ?i = "scan_buckets (buckets h) 1"
  show pos: "0 < ?i" using scan_buckets_ge [of 1 "buckets h"] by simp
  show below: "\<forall>j. j < ?i \<longrightarrow> buckets h ! j = []"
  proof (intro allI impI)
    fix j assume "j < ?i"
    show "buckets h ! j = []"
    proof (cases "j = 0")
      case True
      with b0 show ?thesis by simp
    next
      case False
      then have "1 \<le> j" by simp
      from scan_buckets_skipped [OF this \<open>j < ?i\<close>] show ?thesis .
    qed
  qed
  have le: "?i \<le> 65" using scan_buckets_le [of 1 "buckets h"] len by simp
  show lt: "?i < 65"
  proof (rule ccontr)
    assume "\<not> ?i < 65"
    with le have "?i = 65" by simp
    with below len have "\<forall>i<length (buckets h). buckets h ! i = []" by simp
    with ne show False by (simp add: entries_empty_iff)
  qed
  show "buckets h ! ?i \<noteq> []" using scan_buckets_found [of "buckets h" 1] lt len by simp
qed

lemma relocate_empty:
  assumes len: "length (buckets h) = 65" and "entries h = {#}"
  shows "relocate h = Inl (LogicError ''RadixHeap is empty'')"
proof -
  have all: "\<forall>i<65. buckets h ! i = []" using assms by (simp add: entries_empty_iff)
  have "\<not> scan_buckets (buckets h) 1 < 65"
    using scan_buckets_found [of "buckets h" 1] all len by auto
  moreover have "scan_buckets (buckets h) 1 \<le> 65"
    using scan_buckets_le [of 1 "buckets h"] len by simp
  ultimately have "scan_buckets (buckets h) 1 = length (buckets h)" using len by simp
  then show ?thesis by (simp add: relocate_def Let_def)
qed

text \<open>Two keys of one bucket differ from each other only below the bit that put them there.\<close>

lemma same_bucket_closer:
  assumes "bucket_index (k1 XOR lst) = i" and "bucket_index (k2 XOR lst) = i" and "0 < i"
  shows "bucket_index (k1 XOR k2) < i"
proof -
  obtain j where j: "i = Suc j" using assms(3) by (cases i) auto
  have hi: "\<forall>n\<ge>Suc j. bit k1 n = bit lst n" "\<forall>n\<ge>Suc j. bit k2 n = bit lst n"
    using assms(1,2) j bucket_index_xor_le_iff [of k1 lst "Suc j"]
      bucket_index_xor_le_iff [of k2 lst "Suc j"] by simp_all
  have "\<not> (\<forall>n\<ge>j. bit k1 n = bit lst n)" "\<not> (\<forall>n\<ge>j. bit k2 n = bit lst n)"
    using assms(1,2) j bucket_index_xor_le_iff [of k1 lst j]
      bucket_index_xor_le_iff [of k2 lst j] by simp_all
  then obtain n1 n2 where n: "j \<le> n1" "bit k1 n1 \<noteq> bit lst n1" "j \<le> n2" "bit k2 n2 \<noteq> bit lst n2"
    by blast
  have "n1 = j" using n(1,2) hi(1) by (cases "n1 = j") (auto simp: Suc_le_eq)
  moreover have "n2 = j" using n(3,4) hi(2) by (cases "n2 = j") (auto simp: Suc_le_eq)
  ultimately have at_j: "bit k1 j = bit k2 j" using n(2,4) by auto
  have "\<forall>n\<ge>j. bit k1 n = bit k2 n"
  proof (intro allI impI)
    fix n assume "j \<le> n"
    show "bit k1 n = bit k2 n"
    proof (cases "n = j")
      case True
      with at_j show ?thesis by simp
    next
      case False
      with \<open>j \<le> n\<close> have "Suc j \<le> n" by simp
      with hi show ?thesis by simp
    qed
  qed
  then have "bucket_index (k1 XOR k2) \<le> j"
    by (simp add: bucket_index_xor_le_iff)
  with j show ?thesis by simp
qed

text \<open>Moving the watermark inside a lower bucket leaves the higher buckets where they are.\<close>

lemma higher_bucket_stays:
  assumes "bucket_index (lst' XOR lst) < bucket_index (k XOR lst)"
  shows "bucket_index (k XOR lst') = bucket_index (k XOR lst)"
proof -
  obtain j where j: "bucket_index (k XOR lst) = Suc j"
    using assms by (cases "bucket_index (k XOR lst)") auto
  have l: "\<forall>n\<ge>j. bit lst' n = bit lst n"
    using assms j bucket_index_xor_le_iff [of lst' lst j] by simp
  have khi: "\<forall>n\<ge>Suc j. bit k n = bit lst n"
    using j bucket_index_xor_le_iff [of k lst "Suc j"] by simp
  have klo: "\<not> (\<forall>n\<ge>j. bit k n = bit lst n)"
    using j bucket_index_xor_le_iff [of k lst j] by simp
  have "bucket_index (k XOR lst') \<le> Suc j"
    using l khi by (simp add: bucket_index_xor_le_iff)
  moreover have "\<not> bucket_index (k XOR lst') \<le> j"
    using l klo by (simp add: bucket_index_xor_le_iff)
  ultimately show ?thesis using j by simp
qed

lemma bucket_index_xor_eq_0_iff: "bucket_index (a XOR b) = 0 \<longleftrightarrow> a = b"
proof -
  have "bucket_index (a XOR b) = 0 \<longleftrightarrow> (\<forall>i. bit a i = bit b i)"
    using bucket_index_xor_le_iff [of a b 0] by simp
  also have "\<dots> \<longleftrightarrow> a = b" by (auto intro: bit_eqI)
  finally show ?thesis .
qed

lemma bucket_invD:
  "bucket_inv h \<Longrightarrow> i < length (buckets h) \<Longrightarrow> e \<in> set (buckets h ! i) \<Longrightarrow>
   bucket_index (fst e XOR last_key h) = i"
  by (simp add: bucket_inv_iff)

lemma relocate_props:
  assumes len: "length (buckets h) = 65" and binv: "bucket_inv h"
    and b0: "buckets h ! 0 = []" and ne: "entries h \<noteq> {#}"
  defines "i \<equiv> scan_buckets (buckets h) 1"
  defines "h' \<equiv> h\<lparr>buckets := (redistribute (min_key (buckets h ! i)) (buckets h ! i) (buckets h))[i := []],
                  last_key := min_key (buckets h ! i)\<rparr>"
  shows "relocate h = Inr h'"
    and "0 < i" and "i < 65" and "buckets h ! i \<noteq> []"
    and "\<forall>j. j < i \<longrightarrow> buckets h ! j = []"
    and "\<forall>e\<in>set (buckets h ! i). bucket_index (fst e XOR last_key h') < i"
    and "\<forall>j. j < 65 \<longrightarrow> buckets h' ! j =
           (if j = i then []
            else buckets h ! j @ filter (\<lambda>e. bucket_index (fst e XOR last_key h') = j) (buckets h ! i))"
    and "entries h' = entries h" and "sz h' = sz h" and "bucket_inv h'"
    and "buckets h' ! 0 \<noteq> []" and "length (buckets h') = 65"
    and "\<exists>m\<in>set (buckets h ! i). fst m = last_key h'"
proof -
  let ?items = "buckets h ! i"
  let ?nl = "min_key ?items"
  show pos: "0 < i" and lt: "i < 65" and items: "?items \<noteq> []"
    and below: "\<forall>j. j < i \<longrightarrow> buckets h ! j = []"
    using scan_nonempty [OF len b0 ne] by (simp_all add: i_def)
  show rel: "relocate h = Inr h'"
    using lt len by (simp add: relocate_def Let_def i_def h'_def)
  have lk: "last_key h' = ?nl" by (simp add: h'_def)
  have in_i: "\<forall>e\<in>set ?items. bucket_index (fst e XOR last_key h) = i"
    using binv lt len by (simp add: bucket_inv_iff)
  obtain m where m: "m \<in> set ?items" "fst m = ?nl"
    using min_key_in [OF items] by auto
  have nl_i: "bucket_index (?nl XOR last_key h) = i"
    using in_i m by auto
  show closer: "\<forall>e\<in>set ?items. bucket_index (fst e XOR last_key h') < i"
    using same_bucket_closer [OF _ nl_i pos] in_i lk by simp
  have nth_redist: "redistribute ?nl ?items (buckets h) ! j =
      buckets h ! j @ filter (\<lambda>e. bucket_index (fst e XOR ?nl) = j) ?items" if "j < 65" for j
    using that len by (intro redistribute_nth) simp
  show nth: "\<forall>j. j < 65 \<longrightarrow> buckets h' ! j =
           (if j = i then []
            else buckets h ! j @ filter (\<lambda>e. bucket_index (fst e XOR last_key h') = j) ?items)"
  proof (intro allI impI)
    fix j :: nat assume j: "j < 65"
    show "buckets h' ! j =
           (if j = i then []
            else buckets h ! j @ filter (\<lambda>e. bucket_index (fst e XOR last_key h') = j) ?items)"
    proof (cases "j = i")
      case True
      then show ?thesis using lt len by (simp add: h'_def length_redistribute)
    next
      case False
      then show ?thesis using nth_redist [OF j] lk by (simp add: h'_def)
    qed
  qed
  show len': "length (buckets h') = 65"
    using len by (simp add: h'_def length_redistribute)
  show "\<exists>m\<in>set (buckets h ! i). fst m = last_key h'"
    using m lk by auto
  have no_i: "filter (\<lambda>e. bucket_index (fst e XOR ?nl) = i) ?items = []"
    using closer lk by (auto simp: filter_empty_conv)
  have at_i: "redistribute ?nl ?items (buckets h) ! i = ?items"
    using nth_redist [OF lt] no_i by simp
  have "\<forall>e\<in>set ?items. bucket_index (fst e XOR ?nl) < length (buckets h)"
    using closer lk lt len by auto
  from mset_concat_redistribute [OF this]
  have grown: "mset (concat (redistribute ?nl ?items (buckets h))) = entries h + mset ?items"
    by (simp add: entries_def)
  have "mset (concat ((redistribute ?nl ?items (buckets h))[i := []]))
          + mset (redistribute ?nl ?items (buckets h) ! i)
        = mset (concat (redistribute ?nl ?items (buckets h))) + mset []"
    using lt len by (intro mset_concat_update) (simp add: length_redistribute)
  then show ent: "entries h' = entries h"
    using grown at_i by (simp add: entries_def h'_def)
  show sz: "sz h' = sz h" by (simp add: h'_def)
  show "bucket_inv h'"
    unfolding bucket_inv_iff
  proof (intro allI impI ballI)
    fix j e
    assume j: "j < length (buckets h')" and e: "e \<in> set (buckets h' ! j)"
    from j len' have j65: "j < 65" by simp
    show "bucket_index (fst e XOR last_key h') = j"
    proof (cases "j = i")
      case True
      with nth j65 e show ?thesis by simp
    next
      case False
      with nth j65 e have
        "e \<in> set (buckets h ! j) \<or> (e \<in> set ?items \<and> bucket_index (fst e XOR last_key h') = j)"
        by auto
      then show ?thesis
      proof
        assume old: "e \<in> set (buckets h ! j)"
        then have ej: "bucket_index (fst e XOR last_key h) = j"
          using binv j65 len by (simp add: bucket_inv_iff)
        have "\<not> j < i" using below old by auto
        with False have "i < j" by simp
        with ej nl_i have "bucket_index (?nl XOR last_key h) < bucket_index (fst e XOR last_key h)"
          by simp
        from higher_bucket_stays [OF this] ej lk show ?thesis by simp
      qed simp
    qed
  qed
  have "bucket_index (fst m XOR ?nl) = 0" using m(2) by (simp only: bucket_index_xor_eq_0_iff)
  then have "filter (\<lambda>e. bucket_index (fst e XOR last_key h') = 0) ?items \<noteq> []"
    using m(1) lk by (auto simp: filter_empty_conv)
  moreover have "buckets h' ! 0 =
      buckets h ! 0 @ filter (\<lambda>e. bucket_index (fst e XOR last_key h') = 0) ?items"
    using nth pos by simp
  ultimately show "buckets h' ! 0 \<noteq> []" by simp
qed

lemma relocate_monotone:
  assumes inv: "heap_inv h" and b0: "buckets h ! 0 = []" and ne: "entries h \<noteq> {#}"
    and mono: "monotone_heap h" and rel: "relocate h = Inr h'"
  shows "\<forall>e\<in>#entries h. last_key h' \<le> fst e" and "last_key h \<le> last_key h'"
proof -
  let ?i = "scan_buckets (buckets h) 1"
  let ?items = "buckets h ! ?i"
  have len: "length (buckets h) = 65" using inv by (simp add: heap_inv_def)
  have binv: "bucket_inv h" using inv by (simp add: heap_inv_def)
  note p = relocate_props [OF len binv b0 ne]
  have lk: "last_key h' = min_key ?items" using p(1) rel by auto
  obtain m where m: "m \<in> set ?items" "fst m = min_key ?items"
    using min_key_in [OF p(4)] by auto
  have m_ent: "m \<in># entries h" using m(1) p(3) len by (auto simp: in_entries_iff)
  then have "last_key h \<le> fst m" using mono by (auto simp: monotone_heap_def)
  then show "last_key h \<le> last_key h'" using m(2) lk by simp
  have nl_i: "bucket_index (min_key ?items XOR last_key h) = ?i"
    using bucket_invD [OF binv _ m(1)] p(3) len m(2) by simp
  show "\<forall>e\<in>#entries h. last_key h' \<le> fst e"
  proof
    fix e assume e: "e \<in># entries h"
    then obtain j where j: "j < 65" "e \<in> set (buckets h ! j)"
      using len by (auto simp: in_entries_iff)
    then have ej: "bucket_index (fst e XOR last_key h) = j"
      using binv len by (simp add: bucket_inv_iff)
    have "\<not> j < ?i" using p(5) j(2) by auto
    show "last_key h' \<le> fst e"
    proof (cases "j = ?i")
      case True
      with j(2) lk show ?thesis by (simp add: min_key_le)
    next
      case False
      with \<open>\<not> j < ?i\<close> have "?i < j" by simp
      with ej nl_i have "bucket_index (min_key ?items XOR last_key h)
                          < bucket_index (fst e XOR last_key h)" by simp
      moreover have "last_key h \<le> min_key ?items" "last_key h \<le> fst e"
        using mono m m_ent e by (auto simp: monotone_heap_def)
      ultimately have "min_key ?items < fst e" by (intro bucket_order [of "last_key h"])
      with lk show ?thesis by simp
    qed
  qed
qed

subsection \<open>pop\<close>

lemma pop_back0_props:
  assumes inv: "heap_inv h" and b0: "buckets h ! 0 \<noteq> []"
  defines "e \<equiv> last (buckets h ! 0)"
  defines "h' \<equiv> snd (pop_back0 h)"
  shows "pop_back0 h = (e, h')" and "fst e = last_key h" and "e \<in># entries h"
    and "entries h' = entries h - {#e#}" and "heap_inv h'" and "last_key h' = last_key h"
proof -
  have len: "length (buckets h) = 65" using inv by (simp add: heap_inv_def)
  have binv: "bucket_inv h" using inv by (simp add: heap_inv_def)
  show "pop_back0 h = (e, h')" by (simp add: pop_back0_def e_def h'_def)
  have e0: "e \<in> set (buckets h ! 0)" using b0 by (simp add: e_def)
  then have "bucket_index (fst e XOR last_key h) = 0"
    using binv len by (simp add: bucket_inv_iff)
  then show "fst e = last_key h" by (simp add: bucket_index_xor_eq_0_iff)
  show ein: "e \<in># entries h" using e0 len by (auto simp: in_entries_iff intro!: exI [of _ 0])
  show lk: "last_key h' = last_key h" by (simp add: h'_def pop_back0_def)
  have bs': "buckets h' = (buckets h)[0 := butlast (buckets h ! 0)]"
    by (simp add: h'_def pop_back0_def)
  have "mset (concat ((buckets h)[0 := butlast (buckets h ! 0)])) + mset (buckets h ! 0)
        = mset (concat (buckets h)) + mset (butlast (buckets h ! 0))"
    using len by (intro mset_concat_update) simp
  moreover have "mset (buckets h ! 0) = add_mset e (mset (butlast (buckets h ! 0)))"
    using b0 unfolding e_def by (metis append_butlast_last_id mset.simps(2) mset_append union_mset_add_mset_right add.right_neutral mset.simps(1))
  ultimately have "add_mset e (entries h') = entries h"
    by (simp add: entries_def bs')
  then show ent: "entries h' = entries h - {#e#}" by (metis add_mset_remove_trivial)
  have "bucket_inv h'"
    unfolding bucket_inv_iff
  proof (intro allI impI ballI)
    fix j x
    assume j: "j < length (buckets h')" and x: "x \<in> set (buckets h' ! j)"
    have "x \<in> set (buckets h ! j)"
    proof (cases "j = 0")
      case True
      with x bs' len show ?thesis by (auto dest: in_set_butlastD)
    next
      case False
      with x bs' show ?thesis by simp
    qed
    then show "bucket_index (fst x XOR last_key h') = j"
      using binv j bs' lk by (simp add: bucket_inv_iff)
  qed
  moreover have "sz h' = size (entries h')"
    using inv ein ent by (simp add: heap_inv_def h'_def pop_back0_def size_Diff_singleton)
  ultimately show "heap_inv h'" using len bs' by (simp add: heap_inv_def)
qed

lemma heap_inv_relocate:
  assumes inv: "heap_inv h" and b0: "buckets h ! 0 = []" and ne: "entries h \<noteq> {#}"
  shows "\<exists>h'. relocate h = Inr h' \<and> heap_inv h' \<and> entries h' = entries h \<and> buckets h' ! 0 \<noteq> []"
proof -
  have len: "length (buckets h) = 65" and binv: "bucket_inv h" and s: "sz h = size (entries h)"
    using inv by (simp_all add: heap_inv_def)
  note p = relocate_props [OF len binv b0 ne]
  show ?thesis
    using p(1,8,9,10,11,12) s by (auto simp: heap_inv_def)
qed

lemma pop_empty_heap:
  assumes "heap_inv h" and "entries h = {#}"
  shows "pop h = Inl (LogicError ''RadixHeap is empty'')"
proof -
  have len: "length (buckets h) = 65" using assms by (simp add: heap_inv_def)
  then have "buckets h ! 0 = []" using assms(2) by (simp add: entries_empty_iff)
  then show ?thesis using relocate_empty [OF len assms(2)] by (simp add: pop_def)
qed

lemma pop_props:
  assumes inv: "heap_inv h" and ne: "entries h \<noteq> {#}"
  shows "\<exists>e h'. pop h = Inr (e, h') \<and> e \<in># entries h \<and> entries h' = entries h - {#e#}
           \<and> heap_inv h' \<and> fst e = last_key h'
           \<and> (monotone_heap h \<longrightarrow> (\<forall>x\<in>#entries h. fst e \<le> fst x))"
proof -
  have "\<exists>hb. pop h = Inr (pop_back0 hb) \<and> heap_inv hb \<and> buckets hb ! 0 \<noteq> []
          \<and> entries hb = entries h
          \<and> (monotone_heap h \<longrightarrow> (\<forall>x\<in>#entries h. last_key hb \<le> fst x))"
  proof (cases "buckets h ! 0 = []")
    case False
    then have "pop h = Inr (pop_back0 h)" by (simp add: pop_def)
    with inv False show ?thesis by (auto simp: monotone_heap_def)
  next
    case True
    from heap_inv_relocate [OF inv True ne] obtain h1 where h1: "relocate h = Inr h1"
      "heap_inv h1" "entries h1 = entries h" "buckets h1 ! 0 \<noteq> []" by blast
    have "monotone_heap h \<longrightarrow> (\<forall>x\<in>#entries h. last_key h1 \<le> fst x)"
      using relocate_monotone(1) [OF inv True ne _ h1(1)] by simp
    moreover have "pop h = Inr (pop_back0 h1)" using True h1(1) by (simp add: pop_def)
    ultimately show ?thesis using h1 by blast
  qed
  then obtain hb where hb: "pop h = Inr (pop_back0 hb)" "heap_inv hb" "buckets hb ! 0 \<noteq> []"
    "entries hb = entries h" "monotone_heap h \<longrightarrow> (\<forall>x\<in>#entries h. last_key hb \<le> fst x)"
    by blast
  note p = pop_back0_props [OF hb(2,3)]
  show ?thesis
  proof (intro exI conjI)
    show "pop h = Inr (last (buckets hb ! 0), snd (pop_back0 hb))" using hb(1) p(1) by simp
    show "last (buckets hb ! 0) \<in># entries h" using p(3) hb(4) by simp
    show "entries (snd (pop_back0 hb)) = entries h - {#last (buckets hb ! 0)#}"
      using p(4) hb(4) by simp
    show "heap_inv (snd (pop_back0 hb))" using p(5) .
    show "fst (last (buckets hb ! 0)) = last_key (snd (pop_back0 hb))" using p(2,6) by simp
    show "monotone_heap h \<longrightarrow> (\<forall>x\<in>#entries h. fst (last (buckets hb ! 0)) \<le> fst x)"
      using hb(5) p(2) by simp
  qed
qed

lemma monotone_heap_pop:
  assumes "heap_inv h" and "monotone_heap h" and "pop h = Inr (e, h')"
  shows "monotone_heap h'"
proof -
  have ne: "entries h \<noteq> {#}" using assms(1,3) pop_empty_heap by fastforce
  from pop_props [OF assms(1) ne] assms(2,3)
  have e: "entries h' = entries h - {#e#}" "fst e = last_key h'" "\<forall>x\<in>#entries h. fst e \<le> fst x"
    by auto
  show ?thesis unfolding monotone_heap_def
  proof
    fix x assume "x \<in># entries h'"
    then have "x \<in># entries h" using e(1) by (auto dest: in_diffD)
    with e show "last_key h' \<le> fst x" by simp
  qed
qed

lemma heap_inv_pop:
  assumes "heap_inv h" and "pop h = Inr r"
  shows "heap_inv (snd r)"
proof -
  have ne: "entries h \<noteq> {#}" using assms pop_empty_heap by fastforce
  from pop_props [OF assms(1) ne] assms(2) show ?thesis by auto
qed

lemma heap_inv_run_ops:
  "heap_inv h \<Longrightarrow> run_ops ops h = Inr h' \<Longrightarrow> heap_inv h'"
proof (induction ops h rule: run_ops.induct)
  case (1 h)
  then show ?case by simp
next
  case (2 k v ops h)
  then show ?case by (simp add: heap_inv_push)
next
  case (3 ops h)
  then show ?case by (auto split: sum.splits dest: heap_inv_pop)
qed

lemma bucket_index_bit_length:
  assumes "d \<noteq> 0"
  shows "bit d (bucket_index d - 1)" and "\<forall>i\<ge>bucket_index d. \<not> bit d i" and "0 < bucket_index d"
proof -
  show hi: "\<forall>i\<ge>bucket_index d. \<not> bit d i"
    using bucket_index_le_iff [of d "bucket_index d"] by simp
  show pos: "0 < bucket_index d" using assms bucket_index_eq_0_iff [of d] by auto
  have "\<not> bucket_index d \<le> bucket_index d - 1" using pos by simp
  then obtain i where i: "bucket_index d - 1 \<le> i" "bit d i"
    unfolding bucket_index_le_iff by blast
  have "i < bucket_index d" using hi i(2) by (meson not_le)
  with i(1) have "i = bucket_index d - 1" by simp
  with i(2) show "bit d (bucket_index d - 1)" by simp
qed

text \<open>
  C2: in every sequence of pushes and pops on a fresh heap in which each pushed key is at
  least \<^verbatim>\<open>last\<close> at its call, the heap reached satisfies the bucket invariant, and so
  does the heap that \<^verbatim>\<open>relocate\<close> leaves when \<^verbatim>\<open>pop\<close> calls it (on an empty bucket 0).
  The bucket index of 0 is 0 and that of a non-zero word is the position of its highest
  set bit, counted from 1.
\<close>

theorem bucket_invariant_maintained:
  assumes "pushes_monotone ops RadixHeap_new" and "run_ops ops RadixHeap_new = Inr h"
  shows "bucket_inv h
    \<and> (\<forall>h'. buckets h ! 0 = [] \<and> relocate h = Inr h' \<longrightarrow> bucket_inv h')
    \<and> bucket_index 0 = 0
    \<and> (\<forall>d. d \<noteq> 0 \<longrightarrow>
          0 < bucket_index d \<and> bit d (bucket_index d - 1) \<and> (\<forall>i\<ge>bucket_index d. \<not> bit d i))"
proof (intro conjI allI impI)
  have inv: "heap_inv h" using heap_inv_run_ops [OF heap_inv_new assms(2)] .
  then show "bucket_inv h" by (simp add: heap_inv_def)
  show "bucket_inv h'" if "buckets h ! 0 = [] \<and> relocate h = Inr h'" for h'
  proof -
    from that have b0: "buckets h ! 0 = []" and r: "relocate h = Inr h'" by simp_all
    have "entries h \<noteq> {#}"
      using relocate_empty [of h] inv r by (auto simp: heap_inv_def)
    from heap_inv_relocate [OF inv b0 this] r show ?thesis by (auto simp: heap_inv_def)
  qed
  show "bucket_index 0 = 0" by (simp add: bucket_index_def)
  show "0 < bucket_index d" "bit d (bucket_index d - 1)" if "d \<noteq> 0" for d
    using bucket_index_bit_length [OF that] by simp_all
  show "\<not> bit d i" if "d \<noteq> 0" "bucket_index d \<le> i" for d i
    using bucket_index_bit_length(2) [OF that(1)] that(2) by simp
qed

lemma run_ops_example:
  "pushes_monotone ops_example RadixHeap_new"
  "run_ops ops_example RadixHeap_new =
     Inr \<lparr>buckets = (replicate 65 [])[2 := [(7, 3)], 4 := [(9, 2)]], last_key = 5, sz = 2\<rparr>"
  by code_simp+

theorem bucket_invariant_maintained_witness:
  "pushes_monotone ops_example RadixHeap_new \<and>
   run_ops ops_example RadixHeap_new =
     Inr \<lparr>buckets = (replicate 65 [])[2 := [(7, 3)], 4 := [(9, 2)]], last_key = 5, sz = 2\<rparr> \<and>
   bucket_inv \<lparr>buckets = (replicate 65 [])[2 := [(7, 3)], 4 := [(9, 2)]], last_key = 5, sz = 2\<rparr>"
  using bucket_invariant_maintained [OF run_ops_example] run_ops_example by simp

text \<open>
  C6: \<^verbatim>\<open>pop\<close> on an empty heap throws \<^verbatim>\<open>std::logic_error("RadixHeap is empty")\<close> and returns
  nothing. The heap is empty when its counter is 0, which under the invariant is when no
  bucket holds an entry; then the scan of \<^verbatim>\<open>relocate\<close> runs to the end of the buckets and
  \<^verbatim>\<open>relocate\<close> throws.
\<close>

theorem pop_on_empty_heap:
  assumes "heap_inv h" and "heap_empty h"
  shows "pop h = Inl (LogicError ''RadixHeap is empty'')
    \<and> relocate h = Inl (LogicError ''RadixHeap is empty'')
    \<and> scan_buckets (buckets h) 1 = length (buckets h)
    \<and> entries h = {#}"
proof -
  have e: "entries h = {#}" using assms by (simp add: heap_inv_def heap_empty_def)
  have len: "length (buckets h) = 65" using assms by (simp add: heap_inv_def)
  have r: "relocate h = Inl (LogicError ''RadixHeap is empty'')"
    using relocate_empty [OF len e] .
  then have "scan_buckets (buckets h) 1 = length (buckets h)"
    by (auto simp: relocate_def Let_def split: if_splits)
  with e r pop_empty_heap [OF assms(1) e] show ?thesis by simp
qed

theorem pop_on_empty_heap_witness:
  "heap_inv RadixHeap_new \<and> heap_empty RadixHeap_new \<and>
   pop RadixHeap_new = Inl (LogicError ''RadixHeap is empty'')"
proof -
  have h: "heap_empty RadixHeap_new" by (simp add: heap_empty_def RadixHeap_new_def)
  show ?thesis using pop_on_empty_heap [OF heap_inv_new h] heap_inv_new h by simp
qed

text \<open>
  C9: on a heap with 65 buckets that satisfies the bucket invariant, has an empty bucket 0
  and stores at least one entry, \<^verbatim>\<open>relocate\<close> succeeds. With \<open>i\<close> the lowest non-empty
  bucket, \<open>i > 0\<close>, every entry of bucket \<open>i\<close> ends in the bucket of its index under the
  new \<^verbatim>\<open>last\<close>, which is below \<open>i\<close>; an entry of the least key of bucket \<open>i\<close> ends in bucket 0;
  the bag of entries and the counter are unchanged and the invariant holds again. So bucket
  0 is not empty when \<^verbatim>\<open>pop\<close> takes its last element.
\<close>

theorem relocate_fills_bucket_0:
  assumes "length (buckets h) = 65" and "bucket_inv h"
    and "buckets h ! 0 = []" and "entries h \<noteq> {#}"
  shows "\<exists>h' i. relocate h = Inr h' \<and> 0 < i \<and> i < 65 \<and> buckets h ! i \<noteq> []
    \<and> (\<forall>j. j < i \<longrightarrow> buckets h ! j = [])
    \<and> (\<forall>e\<in>set (buckets h ! i).
          bucket_index (fst e XOR last_key h') < i
          \<and> e \<in> set (buckets h' ! bucket_index (fst e XOR last_key h')))
    \<and> (\<exists>m\<in>set (buckets h ! i). (\<forall>e\<in>set (buckets h ! i). fst m \<le> fst e) \<and> m \<in> set (buckets h' ! 0))
    \<and> entries h' = entries h \<and> sz h' = sz h \<and> bucket_inv h'
    \<and> buckets h' ! 0 \<noteq> [] \<and> pop h = Inr (pop_back0 h')"
proof -
  let ?i = "scan_buckets (buckets h) 1"
  let ?items = "buckets h ! ?i"
  define h' where "h' = h\<lparr>buckets := (redistribute (min_key ?items) ?items (buckets h))[?i := []],
                             last_key := min_key ?items\<rparr>"
  note p = relocate_props [OF assms, folded h'_def]
  note q = p(2-13)
  have h': "relocate h = Inr h'" using p(1) .
  have lk: "last_key h' = min_key ?items" by (simp add: h'_def)
  have moved: "bucket_index (fst e XOR last_key h') < ?i
      \<and> e \<in> set (buckets h' ! bucket_index (fst e XOR last_key h'))" if e: "e \<in> set ?items" for e
  proof -
    have lt: "bucket_index (fst e XOR last_key h') < ?i" using q(5) e by simp
    then have "bucket_index (fst e XOR last_key h') < 65" using q(2) by simp
    then have "buckets h' ! bucket_index (fst e XOR last_key h') =
        buckets h ! bucket_index (fst e XOR last_key h')
          @ filter (\<lambda>x. bucket_index (fst x XOR last_key h') = bucket_index (fst e XOR last_key h')) ?items"
      using q(6) lt by simp
    with e lt show ?thesis by simp
  qed
  obtain m where m: "m \<in> set ?items" "fst m = last_key h'" using q(12) by blast
  have m0: "m \<in> set (buckets h' ! 0)"
    using moved [OF m(1)] m(2) by (simp add: bucket_index_values(1))
  have mmin: "\<forall>e\<in>set ?items. fst m \<le> fst e" using m(2) lk by (simp add: min_key_le)
  have "pop h = Inr (pop_back0 h')" using assms(3) h' by (simp add: pop_def)
  then show ?thesis
    using h' q(1-4) moved m(1) m0 mmin q(7-10) by blast
qed

theorem relocate_fills_bucket_0_witness:
  "length (buckets heap_example) = 65 \<and> bucket_inv heap_example
   \<and> buckets heap_example ! 0 = [] \<and> entries heap_example \<noteq> {#}
   \<and> (\<exists>h'. relocate heap_example = Inr h' \<and> buckets h' ! 0 \<noteq> [])"
proof -
  have inv: "heap_inv heap_example"
    unfolding heap_example_def by (intro heap_inv_push heap_inv_new)
  then have a: "length (buckets heap_example) = 65" "bucket_inv heap_example"
    by (simp_all add: heap_inv_def)
  have b: "buckets heap_example ! 0 = []"
    by (simp add: heap_example_def RadixHeap_new_def push_def bucket_index_values replicate_65)
  have c: "entries heap_example \<noteq> {#}"
    by (simp add: heap_example_def entries_push push_fields RadixHeap_new_def)
  show ?thesis using relocate_fills_bucket_0 [OF a b c] a b c by blast
qed

section \<open>The cross-check\<close>

lemma verify_from_equal:
  "length a = length b \<Longrightarrow> (\<forall>j. i \<le> j \<and> j < length a \<longrightarrow> a ! j = b ! j) \<Longrightarrow>
   verify_from i a b = Inr ()"
proof (induction i a b rule: verify_from.induct)
  case (1 i a b)
  show ?case
  proof (cases "i < length a")
    case True
    with "1.prems" have "a ! i = b ! i" by simp
    moreover have "verify_from (i + 1) a b = Inr ()"
      using True \<open>a ! i = b ! i\<close> "1.prems" by (intro "1.IH") auto
    ultimately show ?thesis using True by (subst verify_from.simps) simp
  next
    case False
    then show ?thesis by (subst verify_from.simps) simp
  qed
qed

lemma verify_from_differ:
  "i \<le> k \<Longrightarrow> k < length a \<Longrightarrow> a ! k \<noteq> b ! k \<Longrightarrow> (\<forall>j. i \<le> j \<and> j < k \<longrightarrow> a ! j = b ! j) \<Longrightarrow>
   verify_from i a b = Inl (RuntimeError (mismatch_message k (a ! k) (b ! k)))"
proof (induction i a b rule: verify_from.induct)
  case (1 i a b)
  have lt: "i < length a" using "1.prems" by simp
  show ?case
  proof (cases "i = k")
    case True
    with "1.prems" lt show ?thesis by (subst verify_from.simps) simp
  next
    case False
    with "1.prems" have ik: "i < k" by simp
    with "1.prems" have eq: "a ! i = b ! i" by simp
    have "verify_from (i + 1) a b = Inl (RuntimeError (mismatch_message k (a ! k) (b ! k)))"
      using lt eq ik "1.prems" by (intro "1.IH") auto
    then show ?thesis using lt eq by (subst verify_from.simps) simp
  qed
qed

lemma first_difference:
  assumes "length a = length b" and "a \<noteq> b"
  shows "\<exists>i<length a. a ! i \<noteq> b ! i \<and> (\<forall>j<i. a ! j = b ! j)"
proof -
  have ex: "\<exists>i. i < length a \<and> a ! i \<noteq> b ! i"
    using assms by (meson nth_equalityI)
  define i where "i = (LEAST i. i < length a \<and> a ! i \<noteq> b ! i)"
  have "i < length a \<and> a ! i \<noteq> b ! i"
    unfolding i_def using ex by (rule LeastI_ex)
  moreover have "a ! j = b ! j" if "j < i" for j
  proof (rule ccontr)
    assume "a ! j \<noteq> b ! j"
    moreover have "j < length a" using that \<open>i < length a \<and> a ! i \<noteq> b ! i\<close> by simp
    ultimately have "i \<le> j" unfolding i_def by (intro Least_le) simp
    with that show False by simp
  qed
  ultimately show ?thesis by blast
qed

text \<open>
  C5, as the code has it: \<^verbatim>\<open>verify_results\<close> returns normally exactly when the two
  vectors are equal. When their lengths differ it throws the size error, which names no
  index and no value. When the lengths agree and the vectors differ it throws the mismatch
  error for the first index at which they differ, with the two values found there.
\<close>

theorem verify_results_spec:
  "(verify_results a b = Inr () \<longleftrightarrow> a = b)
   \<and> (length a \<noteq> length b \<longrightarrow>
        verify_results a b = Inl (RuntimeError ''Result vectors have different sizes''))
   \<and> (length a = length b \<and> a \<noteq> b \<longrightarrow>
        (\<exists>i<length a. a ! i \<noteq> b ! i \<and> (\<forall>j<i. a ! j = b ! j)
           \<and> verify_results a b = Inl (RuntimeError (mismatch_message i (a ! i) (b ! i)))))"
proof (intro conjI impI)
  show "length a \<noteq> length b \<Longrightarrow>
        verify_results a b = Inl (RuntimeError ''Result vectors have different sizes'')"
    by (simp add: verify_results_def)
  show third: "\<exists>i<length a. a ! i \<noteq> b ! i \<and> (\<forall>j<i. a ! j = b ! j)
           \<and> verify_results a b = Inl (RuntimeError (mismatch_message i (a ! i) (b ! i)))"
    if "length a = length b \<and> a \<noteq> b"
  proof -
    from that first_difference [of a b] obtain i where
      i: "i < length a" "a ! i \<noteq> b ! i" "\<forall>j<i. a ! j = b ! j" by blast
    have "verify_from 0 a b = Inl (RuntimeError (mismatch_message i (a ! i) (b ! i)))"
      using i by (intro verify_from_differ) auto
    with that i show ?thesis by (auto simp: verify_results_def)
  qed
  show "verify_results a b = Inr () \<longleftrightarrow> a = b"
  proof
    assume ok: "verify_results a b = Inr ()"
    show "a = b"
    proof (rule ccontr)
      assume ne: "a \<noteq> b"
      show False
      proof (cases "length a = length b")
        case True
        with ne third ok show ?thesis by auto
      next
        case False
        with ok show ?thesis by (simp add: verify_results_def)
      qed
    qed
  next
    assume "a = b"
    then show "verify_results a b = Inr ()"
      using verify_from_equal [of a b 0] by (simp add: verify_results_def)
  qed
qed

theorem verify_results_spec_witness:
  "verify_results [1, 2] [1, 2] = Inr ()
   \<and> length [1 :: u64] \<noteq> length [2, 3 :: u64]
   \<and> verify_results [1] [2, 3] = Inl (RuntimeError ''Result vectors have different sizes'')
   \<and> length [1, 2, 3 :: u64] = length [1, 5, 3 :: u64] \<and> [1, 2, 3 :: u64] \<noteq> [1, 5, 3]
   \<and> verify_results [1, 2, 3] [1, 5, 3] \<noteq> Inr ()"
  using verify_results_spec [of "[1, 2]" "[1, 2]"] verify_results_spec [of "[1]" "[2, 3]"]
    verify_results_spec [of "[1, 2, 3]" "[1, 5, 3]"]
  by simp

text \<open>
  Vectors of different lengths get the size error, not the mismatch at node 0.
\<close>

theorem verify_results_size_counterexample:
  "verify_results [1] [2, 3] = Inl (RuntimeError ''Result vectors have different sizes'')
   \<and> verify_results [1] [2, 3] \<noteq> Inl (RuntimeError (mismatch_message 0 1 2))"
  by code_simp

lemma verify_results_example:
  "verify_results [1, 2, 3] [1, 5, 3] = Inl (RuntimeError ''Mismatch at node 1: 2 vs 5'')"
  by code_simp

section \<open>Reading the graph\<close>

lemma read_lines_skipped:
  "\<forall>l\<in>set lines. l = [] \<or> l ! 0 = CHR ''#'' \<Longrightarrow>
   read_lines extract lines edges max_node = Inr (edges, max_node)"
  by (induction lines) auto

lemma read_lines_edges:
  assumes "read_lines extract lines edges max_node = Inr (edges', max_node')"
    and "edges = [] \<longleftrightarrow> max_node < 0"
    and "\<forall>e\<in>set edges. 0 \<le> fst e \<and> fst e \<le> max_node"
  shows "(edges' = [] \<longleftrightarrow> max_node' < 0) \<and> (\<forall>e\<in>set edges'. 0 \<le> fst e \<and> fst e \<le> max_node')"
  using assms
proof (induction lines arbitrary: edges max_node)
  case Nil
  then show ?case by simp
next
  case (Cons line rest)
  show ?case
  proof (cases "line = [] \<or> line ! 0 = CHR ''#''")
    case True
    with Cons.prems(1) have "read_lines extract rest edges max_node = Inr (edges', max_node')"
      by auto
    from Cons.IH [OF this Cons.prems(2,3)] show ?thesis .
  next
    case False
    with Cons.prems(1) obtain f t w where ex: "extract line = Some (f, t, w)"
      by (cases "extract line") auto
    with Cons.prems(1) False have ok: "0 \<le> f" "0 \<le> t" "0 \<le> w"
      by (auto split: if_splits)
    with Cons.prems(1) False ex have
      r: "read_lines extract rest (edges @ [(f, t, word_of_int w)]) (max (max max_node f) t)
          = Inr (edges', max_node')"
      by auto
    show ?thesis
    proof (rule Cons.IH [OF r])
      show "(edges @ [(f, t, word_of_int w)] = []) = (max (max max_node f) t < 0)"
        using ok by auto
      show "\<forall>e\<in>set (edges @ [(f, t, word_of_int w)]). 0 \<le> fst e \<and> fst e \<le> max (max max_node f) t"
        using Cons.prems(3) ok by auto
    qed
  qed
qed

lemma length_add_edge: "length (add_edge e g) = length g"
  by (cases e) (simp add: add_edge_def)

lemma add_edge_keeps:
  assumes "u < length g" and "g ! u \<noteq> []"
  shows "add_edge e g ! u \<noteq> []"
proof -
  obtain f t w where e: "e = (f, t, w)" by (cases e)
  show ?thesis using assms by (cases "nat f = u") (simp_all add: e add_edge_def)
qed

lemma add_edge_fills: "0 \<le> fst e \<Longrightarrow> nat (fst e) < length g \<Longrightarrow> add_edge e g ! nat (fst e) \<noteq> []"
  by (cases e) (auto simp: add_edge_def)

lemma length_fold_add_edge: "length (fold add_edge edges g) = length g"
  by (induction edges arbitrary: g) (simp_all add: length_add_edge)

lemma fold_add_edge_keeps:
  "u < length g \<Longrightarrow> g ! u \<noteq> [] \<Longrightarrow> fold add_edge edges g ! u \<noteq> []"
  by (induction edges arbitrary: g) (simp_all add: length_add_edge add_edge_keeps)

lemma fold_add_edge_fills:
  "e \<in> set edges \<Longrightarrow> 0 \<le> fst e \<Longrightarrow> nat (fst e) < length g \<Longrightarrow>
   fold add_edge edges g ! nat (fst e) \<noteq> []"
proof (induction edges arbitrary: g)
  case Nil
  then show ?case by simp
next
  case (Cons x xs)
  show ?case
  proof (cases "e = x")
    case True
    have "fold add_edge xs (add_edge x g) ! nat (fst e) \<noteq> []"
      using Cons.prems True
      by (intro fold_add_edge_keeps) (simp_all add: length_add_edge add_edge_fills)
    then show ?thesis by simp
  next
    case False
    with Cons.prems have "e \<in> set xs" by simp
    from Cons.IH [OF this Cons.prems(2)] Cons.prems(3) show ?thesis
      by (simp add: length_add_edge)
  qed
qed

lemma loaded_graph_has_edge:
  assumes "read_graph_from_file extract path file = Inr loaded" and "graph loaded \<noteq> []"
  shows "\<exists>u<length (graph loaded). graph loaded ! u \<noteq> []"
proof -
  from assms(1) obtain lines where fl: "file = Some lines"
    by (cases "file") (auto simp: read_graph_from_file_def)
  with assms(1) obtain edges max_node where
    r: "read_lines extract lines [] (- 1) = Inr (edges, max_node)"
    by (cases "read_lines extract lines [] (- 1)") (auto simp: read_graph_from_file_def)
  have pos: "\<not> max_node < 0"
    using assms fl r by (auto simp: read_graph_from_file_def)
  then have g: "graph loaded = fold add_edge edges (replicate (nat (max_node + 1)) [])"
    using assms(1) fl r by (auto simp: read_graph_from_file_def)
  from read_lines_edges [OF r] pos
  have e: "edges \<noteq> []" "\<forall>e\<in>set edges. 0 \<le> fst e \<and> fst e \<le> max_node" by auto
  then obtain x where x: "x \<in> set edges" by (cases edges) auto
  with e have fx: "0 \<le> fst x" "nat (fst x) < length (replicate (nat (max_node + 1)) ([] :: Edge list))"
    by auto
  from fold_add_edge_fills [OF x fx] have "graph loaded ! nat (fst x) \<noteq> []" by (simp add: g)
  moreover have "nat (fst x) < length (graph loaded)"
    using fx by (simp add: g length_fold_add_edge)
  ultimately show ?thesis by blast
qed

text \<open>
  C10: when every line of the input is empty or starts with \<open>#\<close>, so that no edge is
  parsed, \<^verbatim>\<open>main\<close> reports the empty graph and runs neither algorithm. A graph that
  \<^verbatim>\<open>read_graph_from_file\<close> returns and \<^verbatim>\<open>main\<close> accepts has a node with an outgoing
  edge; in particular it is never the graph of one node without edges.
\<close>

theorem no_edges_rejected:
  "((\<forall>l\<in>set lines. l = [] \<or> l ! 0 = CHR ''#'') \<longrightarrow>
      main_try extract path (Some lines) source =
        Some (Inl (RuntimeError ''Input graph is empty; provide at least one edge.'')))
   \<and> (read_graph_from_file extract path file = Inr loaded \<and> graph loaded \<noteq> [] \<longrightarrow>
        (\<exists>u<length (graph loaded). graph loaded ! u \<noteq> []) \<and> graph loaded \<noteq> [[]])"
proof (intro conjI impI)
  assume "\<forall>l\<in>set lines. l = [] \<or> l ! 0 = CHR ''#''"
  from read_lines_skipped [OF this]
  show "main_try extract path (Some lines) source =
        Some (Inl (RuntimeError ''Input graph is empty; provide at least one edge.''))"
    by (simp add: main_try_def read_graph_from_file_def)
next
  assume a: "read_graph_from_file extract path file = Inr loaded \<and> graph loaded \<noteq> []"
  then show ex: "\<exists>u<length (graph loaded). graph loaded ! u \<noteq> []"
    using loaded_graph_has_edge by blast
  then show "graph loaded \<noteq> [[]]" by auto
qed

lemma read_example:
  "read_graph_from_file extract_example ''g.txt'' (Some [''# a graph'', ''0 1 4'', '''']) =
     Inr \<lparr>graph = [[edge 1 4], []], node_count = 2\<rparr>"
  by code_simp

theorem no_edges_rejected_witness:
  "main_try extract_example ''g.txt'' (Some [''# no edges'', '''']) 0 =
        Some (Inl (RuntimeError ''Input graph is empty; provide at least one edge.''))
   \<and> read_graph_from_file extract_example ''g.txt'' (Some [''# a graph'', ''0 1 4'', '''']) =
        Inr \<lparr>graph = [[edge 1 4], []], node_count = 2\<rparr>
   \<and> [[edge 1 4], []] \<noteq> [[]]"
  using no_edges_rejected [of "[''# no edges'', '''']" extract_example "''g.txt''" 0
      "Some [''# a graph'', ''0 1 4'', '''']" "\<lparr>graph = [[edge 1 4], []], node_count = 2\<rparr>"]
    read_example
  by simp

section \<open>Words\<close>

lemma unat_INF64: "unat INF64 = 2 ^ 64 - 1"
  by (simp add: INF64_def unsigned_minus_1_eq_mask mask_eq_exp_minus_1)

lemma le_INF64: "x \<le> INF64"
  by (simp add: INF64_def)

lemma neq_INF64_iff: "x \<noteq> INF64 \<longleftrightarrow> unat x < 2 ^ 64 - 1"
proof -
  have "unat x \<le> unat INF64" using le_INF64 [of x] by (simp add: word_le_nat_alt)
  moreover have "x = INF64 \<longleftrightarrow> unat x = unat INF64" by (simp add: word_unat_eq_iff)
  ultimately show ?thesis by (auto simp: unat_INF64)
qed

lemma below_neq_INF64: "x \<le> y \<Longrightarrow> y \<noteq> INF64 \<Longrightarrow> x \<noteq> INF64"
  by (auto simp: neq_INF64_iff word_le_nat_alt)

lemma less_neq_INF64: "x < y \<Longrightarrow> x \<noteq> INF64"
  using le_INF64 [of y] by auto

lemma unat_add_no_overflow:
  "unat (d::u64) + unat w < 2 ^ 64 \<Longrightarrow> unat (d + w) = unat d + unat w"
  using unat_add_lem [of d w] by simp

section \<open>The relaxation loop\<close>

lemma relax_edges_Nil: "relax_edges qpush d [] st = st"
  by (simp add: relax_edges_def)

lemma relax_edges_Cons:
  "relax_edges qpush d (e # es) st = relax_edges qpush d es (relax qpush d e st)"
  by (simp add: relax_edges_def)

lemma relax_eq:
  "relax qpush d e (dist, q) =
     (if d + weight e < dist ! to e
      then (dist[to e := d + weight e], qpush (d + weight e) (to e) q)
      else (dist, q))"
  by (simp add: relax_def Let_def)

lemma length_relax_edges: "length (fst (relax_edges qpush d es (dist, q))) = length dist"
proof (induction es arbitrary: dist q)
  case Nil
  then show ?case by (simp add: relax_edges_Nil)
next
  case (Cons e es)
  then show ?case by (simp add: relax_edges_Cons relax_eq)
qed

lemma relax_edges_decreases: "fst (relax_edges qpush d es (dist, q)) ! v \<le> dist ! v"
proof (induction es arbitrary: dist q)
  case Nil
  then show ?case by (simp add: relax_edges_Nil)
next
  case (Cons e es)
  show ?case
  proof (cases "d + weight e < dist ! to e")
    case True
    have "fst (relax_edges qpush d es (dist[to e := d + weight e], qpush (d + weight e) (to e) q)) ! v
          \<le> dist[to e := d + weight e] ! v" by (rule Cons.IH)
    also have "\<dots> \<le> dist ! v"
      using True by (cases "v = to e"; cases "to e < length dist") (auto simp: list_update_beyond)
    finally show ?thesis using True by (simp add: relax_edges_Cons relax_eq)
  next
    case False
    then show ?thesis using Cons.IH by (simp add: relax_edges_Cons relax_eq)
  qed
qed

lemma relax_edges_relaxed:
  "e \<in> set es \<Longrightarrow> to e < length dist \<Longrightarrow>
   fst (relax_edges qpush d es (dist, q)) ! to e \<le> d + weight e"
proof (induction es arbitrary: dist q)
  case Nil
  then show ?case by simp
next
  case (Cons x es)
  let ?st = "relax qpush d x (dist, q)"
  have len: "length (fst ?st) = length dist" by (simp add: relax_eq)
  show ?case
  proof (cases "e = x")
    case True
    have "fst (relax_edges qpush d es ?st) ! to e \<le> fst ?st ! to e"
      using relax_edges_decreases [of qpush d es "fst ?st" "snd ?st" "to e"] by simp
    also have "\<dots> \<le> d + weight e"
      using True Cons.prems(2) by (auto simp: relax_eq)
    finally show ?thesis by (simp add: relax_edges_Cons)
  next
    case False
    with Cons.prems have "e \<in> set es" by simp
    from Cons.IH [OF this, of "fst ?st" "snd ?st"] Cons.prems(2) len
    show ?thesis by (simp add: relax_edges_Cons)
  qed
qed

lemma relax_edges_queue_grows: "Q \<subseteq># snd (relax_edges mpush d es (dist, Q))"
proof (induction es arbitrary: dist Q)
  case Nil
  then show ?case by (simp add: relax_edges_Nil)
next
  case (Cons e es)
  show ?case
  proof (cases "d + weight e < dist ! to e")
    case True
    have "Q \<subseteq># mpush (d + weight e) (to e) Q" by (simp add: mpush_def)
    also have "\<dots> \<subseteq># snd (relax_edges mpush d es (dist[to e := d + weight e], mpush (d + weight e) (to e) Q))"
      by (rule Cons.IH)
    finally show ?thesis using True by (simp add: relax_edges_Cons relax_eq)
  next
    case False
    then show ?thesis using Cons.IH by (simp add: relax_edges_Cons relax_eq)
  qed
qed

lemma relax_edges_changed:
  assumes "v < length dist"
    and "fst (relax_edges mpush d es (dist, Q)) ! v \<noteq> dist ! v"
  shows "(fst (relax_edges mpush d es (dist, Q)) ! v, v) \<in># snd (relax_edges mpush d es (dist, Q))
         \<and> (\<exists>e\<in>set es. to e = v \<and> fst (relax_edges mpush d es (dist, Q)) ! v = d + weight e)"
  using assms
proof (induction es arbitrary: dist Q)
  case Nil
  then show ?case by (simp add: relax_edges_Nil)
next
  case (Cons e es)
  obtain dist1 Q1 where st1: "relax mpush d e (dist, Q) = (dist1, Q1)" by (cases "relax mpush d e (dist, Q)")
  let ?r = "relax_edges mpush d es (dist1, Q1)"
  have r: "relax_edges mpush d (e # es) (dist, Q) = ?r" by (simp add: relax_edges_Cons st1)
  have len1: "length dist1 = length dist" using st1 by (auto simp: relax_eq split: if_splits)
  show ?case
  proof (cases "fst ?r ! v = dist1 ! v")
    case False
    with Cons.IH [of dist1 Q1] Cons.prems(1) len1 show ?thesis unfolding r by auto
  next
    case True
    with Cons.prems(2) have ne: "dist1 ! v \<noteq> dist ! v" unfolding r by simp
    then have fired: "d + weight e < dist ! to e" "dist1 = dist[to e := d + weight e]"
      "Q1 = add_mset (d + weight e, to e) Q"
      using st1 by (auto simp: relax_eq mpush_def split: if_splits)
    have tov: "to e = v" using ne fired(2) by (cases "to e = v") auto
    have val: "dist1 ! v = d + weight e" using fired(2) tov Cons.prems(1) by simp
    have "(d + weight e, v) \<in># Q1" using fired(3) tov by simp
    then have "(d + weight e, v) \<in># snd ?r"
      using mset_subset_eqD [OF relax_edges_queue_grows [of Q1 d es dist1]] by simp
    with True val tov show ?thesis unfolding r by auto
  qed
qed

lemma relax_edges_new_entries:
  assumes "\<forall>e\<in>set es. to e < length dist"
    and "x \<in># snd (relax_edges mpush d es (dist, Q))"
  shows "x \<in># Q \<or> (\<exists>e\<in>set es. snd x = to e \<and> fst x = d + weight e
            \<and> fst (relax_edges mpush d es (dist, Q)) ! snd x \<le> fst x \<and> fst x \<noteq> INF64)"
  using assms
proof (induction es arbitrary: dist Q)
  case Nil
  then show ?case by (simp add: relax_edges_Nil)
next
  case (Cons e es)
  obtain dist1 Q1 where st1: "relax mpush d e (dist, Q) = (dist1, Q1)" by (cases "relax mpush d e (dist, Q)")
  let ?r = "relax_edges mpush d es (dist1, Q1)"
  have r: "relax_edges mpush d (e # es) (dist, Q) = ?r" by (simp add: relax_edges_Cons st1)
  have len1: "length dist1 = length dist" using st1 by (auto simp: relax_eq split: if_splits)
  have "\<forall>e\<in>set es. to e < length dist1" using Cons.prems(1) len1 by simp
  from Cons.IH [OF this, of Q1] Cons.prems(2)
  have "x \<in># Q1 \<or> (\<exists>e\<in>set es. snd x = to e \<and> fst x = d + weight e
            \<and> fst ?r ! snd x \<le> fst x \<and> fst x \<noteq> INF64)" unfolding r by simp
  then show ?case
  proof
    assume x1: "x \<in># Q1"
    show ?thesis
    proof (cases "x \<in># Q")
      case True
      then show ?thesis by simp
    next
      case False
      with x1 have fired: "d + weight e < dist ! to e" "dist1 = dist[to e := d + weight e]"
        "x = (d + weight e, to e)"
        using st1 by (auto simp: relax_eq mpush_def split: if_splits)
      have "fst ?r ! to e \<le> dist1 ! to e" by (rule relax_edges_decreases)
      also have "\<dots> = d + weight e" using fired(2) Cons.prems(1) by simp
      finally have "fst ?r ! snd x \<le> fst x" using fired(3) by simp
      moreover have "fst x \<noteq> INF64" using fired(1,3) less_neq_INF64 by simp
      ultimately show ?thesis unfolding r using fired(3) by auto
    qed
  next
    assume "\<exists>e\<in>set es. snd x = to e \<and> fst x = d + weight e \<and> fst ?r ! snd x \<le> fst x \<and> fst x \<noteq> INF64"
    then show ?thesis unfolding r by auto
  qed
qed

lemma sum_list_unat_update:
  assumes "i < length dist" and "x < dist ! i"
  shows "sum_list (map unat (dist[i := x])) < sum_list (map unat (dist :: u64 list))"
proof -
  have "sum_list (map unat (dist[i := x])) = sum_list ((map unat dist)[i := unat x])"
    by (simp add: map_update)
  also have "\<dots> = sum_list (map unat dist) + unat x - map unat dist ! i"
    using assms(1) by (simp add: sum_list_update)
  also have "\<dots> < sum_list (map unat dist)"
  proof -
    have "map unat dist ! i \<le> sum_list (map unat dist)"
      using assms(1) by (intro elem_le_sum_list) simp
    moreover have "unat x < map unat dist ! i"
      using assms by (simp add: word_less_nat_alt)
    ultimately show ?thesis by simp
  qed
  finally show ?thesis .
qed

lemma relax_edges_measure:
  assumes "\<forall>e\<in>set es. to e < length dist"
  shows "relax_edges qpush d es (dist, q) = (dist, q)
         \<or> sum_list (map unat (fst (relax_edges qpush d es (dist, q)))) < sum_list (map unat dist)"
  using assms
proof (induction es arbitrary: dist q)
  case Nil
  then show ?case by (simp add: relax_edges_Nil)
next
  case (Cons e es)
  show ?case
  proof (cases "d + weight e < dist ! to e")
    case False
    then show ?thesis using Cons.IH [of dist q] Cons.prems by (simp add: relax_edges_Cons relax_eq)
  next
    case True
    let ?dist1 = "dist[to e := d + weight e]"
    let ?q1 = "qpush (d + weight e) (to e) q"
    have less: "sum_list (map unat ?dist1) < sum_list (map unat dist)"
      using True Cons.prems by (intro sum_list_unat_update) simp_all
    have "\<forall>e\<in>set es. to e < length ?dist1" using Cons.prems by simp
    from Cons.IH [OF this, of ?q1]
    have "sum_list (map unat (fst (relax_edges qpush d es (?dist1, ?q1)))) \<le> sum_list (map unat ?dist1)"
      by auto
    with less show ?thesis using True by (simp add: relax_edges_Cons relax_eq)
  qed
qed

text \<open>A queue that implements the bag under an invariant runs the same relaxation.\<close>

lemma relax_edges_refine:
  assumes step: "\<And>k v q. I q \<Longrightarrow> C k \<Longrightarrow> I (qpush k v q) \<and> \<alpha> (qpush k v q) = add_mset (k, v) (\<alpha> q)"
    and "I q" and "\<forall>e\<in>set es. C (d + weight e)"
  shows "I (snd (relax_edges qpush d es (dist, q)))
    \<and> fst (relax_edges qpush d es (dist, q)) = fst (relax_edges mpush d es (dist, \<alpha> q))
    \<and> \<alpha> (snd (relax_edges qpush d es (dist, q))) = snd (relax_edges mpush d es (dist, \<alpha> q))"
  using assms(2,3)
proof (induction es arbitrary: dist q)
  case Nil
  then show ?case by (simp add: relax_edges_Nil)
next
  case (Cons e es)
  show ?case
  proof (cases "d + weight e < dist ! to e")
    case False
    then show ?thesis using Cons.IH [of q dist] Cons.prems by (simp add: relax_edges_Cons relax_eq)
  next
    case True
    have "C (d + weight e)" using Cons.prems(2) by simp
    from step [OF Cons.prems(1) this, of "to e"]
    have q1: "I (qpush (d + weight e) (to e) q)"
      "\<alpha> (qpush (d + weight e) (to e) q) = add_mset (d + weight e, to e) (\<alpha> q)" by simp_all
    from Cons.IH [OF q1(1), of "dist[to e := d + weight e]"] Cons.prems(2) q1(2) True
    show ?thesis by (simp add: relax_edges_Cons relax_eq mpush_def)
  qed
qed

section \<open>Walks and the invariant of the relaxation engine\<close>

lemma wf_graphD: "wf_graph g \<Longrightarrow> u < length g \<Longrightarrow> e \<in> set (g ! u) \<Longrightarrow> to e < length g"
  by (simp add: wf_graph_def)

lemma walk_in_range: "walk g s v c \<Longrightarrow> wf_graph g \<Longrightarrow> s < length g \<Longrightarrow> v < length g"
  by (induction rule: walk.induct) (auto dest: wf_graphD)

text \<open>
  While the least key of the queue is \<open>d\<close>, every walk cheaper than \<open>d\<close> ends in a node
  whose recorded distance is at most the cost of the walk.
\<close>

lemma cheap_walk_recorded:
  assumes wf: "wf_graph g" and s: "s < length g" and inv: "sssp_inv g s dist Q"
    and least: "\<forall>x\<in>#Q. d \<le> fst x"
  shows "walk g s v c \<Longrightarrow> c < unat d \<Longrightarrow> unat (dist ! v) \<le> c"
proof (induction rule: walk.induct)
  case walk_source
  show ?case using inv by (simp add: sssp_inv_def)
next
  case (walk_edge u c e)
  have c: "c < unat d" using walk_edge.prems by simp
  with walk_edge.IH have du: "unat (dist ! u) \<le> c" by simp
  have "unat d \<le> 2 ^ 64 - 1" using le_INF64 [of d] by (simp add: word_le_nat_alt unat_INF64)
  with du c have fin: "dist ! u \<noteq> INF64" by (simp add: neq_INF64_iff)
  have "(dist ! u, u) \<notin># Q"
  proof
    assume "(dist ! u, u) \<in># Q"
    with least have "d \<le> dist ! u" by auto
    with du c show False by (simp add: word_le_nat_alt)
  qed
  with inv fin \<open>u < length g\<close> have "done_node g dist u" by (auto simp: sssp_inv_def)
  with \<open>e \<in> set (g ! u)\<close> have "unat (dist ! to e) \<le> unat (dist ! u) + unat (weight e)"
    by (simp add: done_node_def)
  with du show ?case by simp
qed

lemma popped_is_shortest:
  assumes wf: "wf_graph g" and s: "s < length g" and inv: "sssp_inv g s dist Q"
    and least: "\<forall>x\<in>#Q. d \<le> fst x" and mem: "(d, u) \<in># Q" and cur: "d = dist ! u"
  shows "shortest g s u (unat d)"
proof -
  have u: "u < length g" "dist ! u \<noteq> INF64" using inv mem by (auto simp: sssp_inv_def)
  then have w: "walk g s u (unat d)" using inv cur by (simp add: sssp_inv_def)
  have "unat d \<le> c" if "walk g s u c" for c
  proof (rule ccontr)
    assume "\<not> unat d \<le> c"
    then have "c < unat d" by simp
    from cheap_walk_recorded [OF wf s inv least that this] cur \<open>c < unat d\<close>
    show False by simp
  qed
  with w show ?thesis by (simp add: shortest_def)
qed

lemma in_remove1_neq: "x \<noteq> y \<Longrightarrow> x \<in># M \<Longrightarrow> x \<in># M - {#y#}"
  by (simp add: in_diff_count)

lemma sssp_inv_stale:
  assumes inv: "sssp_inv g s dist Q" and ne: "d \<noteq> dist ! u"
  shows "sssp_inv g s dist (Q - {#(d, u)#})"
proof -
  have "(dist ! v, v) \<in># Q - {#(d, u)#}" if "(dist ! v, v) \<in># Q" for v
  proof -
    have "(dist ! v, v) \<noteq> (d, u)" using ne by auto
    with that show ?thesis by (simp add: in_remove1_neq)
  qed
  moreover have "x \<in># Q" if "x \<in># Q - {#(d, u)#}" for x
    using that by (rule in_diffD)
  ultimately show ?thesis using inv unfolding sssp_inv_def by blast
qed

lemma sssp_inv_process:
  assumes wf: "wf_graph g" and s: "s < length g" and no: "no_overflow g s"
    and inv: "sssp_inv g s dist Q"
    and least: "\<forall>x\<in>#Q. d \<le> fst x" and mem: "(d, u) \<in># Q" and cur: "d = dist ! u"
  defines "r \<equiv> relax_edges mpush d (g ! u) (dist, Q - {#(d, u)#})"
  shows "sssp_inv g s (fst r) (snd r)"
proof -
  let ?Q0 = "Q - {#(d, u)#}"
  let ?dist' = "fst r" and ?Q' = "snd r"
  have len: "length dist = length g" and src: "dist ! s = 0" using inv by (simp_all add: sssp_inv_def)
  have u: "u < length g" "dist ! u \<noteq> INF64" using inv mem by (auto simp: sssp_inv_def)
  have sp: "shortest g s u (unat d)" by (rule popped_is_shortest [OF wf s inv least mem cur])
  then have wu: "walk g s u (unat d)" by (simp add: shortest_def)
  have tos: "\<forall>e\<in>set (g ! u). to e < length dist" using wf u(1) len by (auto dest: wf_graphD)
  have add: "unat (d + weight e) = unat d + unat (weight e)" if "e \<in> set (g ! u)" for e
    using no sp u(1) that by (intro unat_add_no_overflow) (auto simp: no_overflow_def)
  have len': "length ?dist' = length g" using len by (simp add: r_def length_relax_edges)
  have dec: "?dist' ! v \<le> dist ! v" for v unfolding r_def by (rule relax_edges_decreases)
  have src': "?dist' ! s = 0" using dec [of s] src by simp
  have changed: "(?dist' ! v, v) \<in># ?Q' \<and> (\<exists>e\<in>set (g ! u). to e = v \<and> ?dist' ! v = d + weight e)"
    if "v < length g" "?dist' ! v \<noteq> dist ! v" for v
    using that len relax_edges_changed [of v dist d "g ! u" ?Q0] by (simp add: r_def)
  have same_u: "?dist' ! u = d"
  proof (rule ccontr)
    assume "?dist' ! u \<noteq> d"
    with changed [OF u(1)] cur obtain e where e: "e \<in> set (g ! u)" "?dist' ! u = d + weight e"
      by auto
    have "unat (?dist' ! u) \<le> unat d" using dec [of u] cur by (simp add: word_le_nat_alt)
    with e add [OF e(1)] have "?dist' ! u = d" by (simp add: word_unat_eq_iff)
    with \<open>?dist' ! u \<noteq> d\<close> show False by simp
  qed
  have walks: "walk g s v (unat (?dist' ! v))" if v: "v < length g" "?dist' ! v \<noteq> INF64" for v
  proof (cases "?dist' ! v = dist ! v")
    case True
    with inv v show ?thesis by (simp add: sssp_inv_def)
  next
    case False
    from changed [OF v(1) False] obtain e where e: "e \<in> set (g ! u)" "to e = v"
      "?dist' ! v = d + weight e" by auto
    from walk_edge [OF wu u(1) e(1)] e add [OF e(1)] show ?thesis by simp
  qed
  have queued_or_done: "(?dist' ! v, v) \<in># ?Q' \<or> done_node g ?dist' v"
    if v: "v < length g" "?dist' ! v \<noteq> INF64" for v
  proof (cases "v = u")
    case True
    have "done_node g ?dist' u"
      unfolding done_node_def
    proof
      fix e assume e: "e \<in> set (g ! u)"
      have "?dist' ! to e \<le> d + weight e"
        unfolding r_def using e tos by (intro relax_edges_relaxed) auto
      then show "unat (?dist' ! to e) \<le> unat (?dist' ! u) + unat (weight e)"
        using add [OF e] same_u by (simp add: word_le_nat_alt)
    qed
    with True show ?thesis by simp
  next
    case False
    show ?thesis
    proof (cases "?dist' ! v = dist ! v")
      case changed': False
      from changed [OF v(1) this] show ?thesis by simp
    next
      case True
      with v inv have "(dist ! v, v) \<in># Q \<or> done_node g dist v" by (simp add: sssp_inv_def)
      then show ?thesis
      proof
        assume "(dist ! v, v) \<in># Q"
        then have "(dist ! v, v) \<in># ?Q0" using False by (simp add: in_remove1_neq)
        then have "(dist ! v, v) \<in># ?Q'"
          using mset_subset_eqD [OF relax_edges_queue_grows [of ?Q0 d "g ! u" dist]]
          by (simp add: r_def)
        with True show ?thesis by simp
      next
        assume dn: "done_node g dist v"
        have "done_node g ?dist' v"
          unfolding done_node_def
        proof
          fix e assume e: "e \<in> set (g ! v)"
          have "unat (?dist' ! to e) \<le> unat (dist ! to e)"
            using dec [of "to e"] by (simp add: word_le_nat_alt)
          also have "\<dots> \<le> unat (dist ! v) + unat (weight e)"
            using dn e by (simp add: done_node_def)
          finally show "unat (?dist' ! to e) \<le> unat (?dist' ! v) + unat (weight e)"
            using True by simp
        qed
        then show ?thesis by simp
      qed
    qed
  qed
  have entries_ok: "snd x < length g \<and> ?dist' ! snd x \<noteq> INF64" if x: "x \<in># ?Q'" for x
  proof -
    from relax_edges_new_entries [OF tos, of x d ?Q0] x
    have "x \<in># ?Q0 \<or> (\<exists>e\<in>set (g ! u). snd x = to e \<and> fst x = d + weight e
            \<and> ?dist' ! snd x \<le> fst x \<and> fst x \<noteq> INF64)" by (simp add: r_def)
    then show ?thesis
    proof
      assume "x \<in># ?Q0"
      then have "x \<in># Q" by (rule in_diffD)
      with inv have "snd x < length g" "dist ! snd x \<noteq> INF64" by (auto simp: sssp_inv_def)
      with below_neq_INF64 [OF dec [of "snd x"]] show ?thesis by simp
    next
      assume "\<exists>e\<in>set (g ! u). snd x = to e \<and> fst x = d + weight e
            \<and> ?dist' ! snd x \<le> fst x \<and> fst x \<noteq> INF64"
      then obtain e where e: "e \<in> set (g ! u)" "snd x = to e" "?dist' ! snd x \<le> fst x"
        "fst x \<noteq> INF64" by auto
      with tos len below_neq_INF64 [of "?dist' ! snd x" "fst x"] show ?thesis by simp
    qed
  qed
  show ?thesis
    unfolding sssp_inv_def using len' src' walks queued_or_done entries_ok by blast
qed

lemma sssp_inv_final:
  assumes wf: "wf_graph g" and s: "s < length g" and inv: "sssp_inv g s dist {#}"
  shows "final_ok g s dist"
proof -
  have bound: "walk g s v c \<Longrightarrow> unat (dist ! v) \<le> c" for v c
  proof (induction rule: walk.induct)
    case walk_source
    show ?case using inv by (simp add: sssp_inv_def)
  next
    case (walk_edge u c e)
    show ?case
    proof (cases "dist ! u = INF64")
      case True
      with walk_edge.IH have "2 ^ 64 - 1 \<le> c" by (simp add: unat_INF64)
      moreover have "unat (dist ! to e) \<le> 2 ^ 64 - 1"
        using le_INF64 [of "dist ! to e"] by (simp add: word_le_nat_alt unat_INF64)
      ultimately show ?thesis by simp
    next
      case False
      with inv \<open>u < length g\<close> have "done_node g dist u" by (auto simp: sssp_inv_def)
      with \<open>e \<in> set (g ! u)\<close> walk_edge.IH show ?thesis by (fastforce simp: done_node_def)
    qed
  qed
  with inv show ?thesis by (simp add: final_ok_def sssp_inv_def)
qed

lemma final_ok_unique:
  assumes "final_ok g s d1" and "final_ok g s d2"
  shows "d1 = d2"
proof (rule nth_equalityI)
  show "length d1 = length d2" using assms by (simp add: final_ok_def)
next
  fix v assume "v < length d1"
  then have v: "v < length g" using assms(1) by (simp add: final_ok_def)
  have le: "unat (a ! v) \<le> unat (b ! v)" if "final_ok g s a" "final_ok g s b" for a b
  proof (cases "b ! v = INF64")
    case True
    then show ?thesis using le_INF64 [of "a ! v"] by (simp add: word_le_nat_alt)
  next
    case False
    with that(2) v have "walk g s v (unat (b ! v))" by (simp add: final_ok_def)
    with that(1) v show ?thesis by (simp add: final_ok_def)
  qed
  from le [OF assms] le [OF assms(2,1)] show "d1 ! v = d2 ! v"
    by (simp add: word_unat_eq_iff)
qed

lemma sssp_inv_initial:
  assumes "s < length g"
  shows "sssp_inv g s ((replicate (length g) INF64)[s := 0]) {#(0, s)#}"
proof -
  let ?dist = "(replicate (length g) INF64)[s := 0]"
  have "?dist ! v = (if v = s then 0 else INF64)" if "v < length g" for v
    using that assms by (simp add: nth_list_update)
  moreover have "(0::u64) \<noteq> INF64" by (simp add: INF64_def)
  ultimately show ?thesis
    using assms by (auto simp: sssp_inv_def intro: walk_source)
qed

section \<open>Dijkstra on the binary heap\<close>

lemma fold_P_min_in:
  "fold (\<lambda>x m. if P_less x m then x else m) xs a \<in> insert a (set xs)"
proof (induction xs arbitrary: a)
  case Nil
  show ?case by simp
next
  case (Cons y ys)
  show ?case
  proof (cases "P_less y a")
    case True
    with Cons.IH [of y] show ?thesis by auto
  next
    case False
    with Cons.IH [of a] show ?thesis by auto
  qed
qed

lemma fold_P_min_le_init:
  "fst (fold (\<lambda>x m. if P_less x m then x else m) xs a) \<le> fst a"
proof (induction xs arbitrary: a)
  case Nil
  show ?case by simp
next
  case (Cons y ys)
  show ?case
  proof (cases "P_less y a")
    case True
    then have "fst y \<le> fst a" by (auto simp: P_less_def)
    with Cons.IH [of y] True show ?thesis by simp
  next
    case False
    with Cons.IH [of a] show ?thesis by simp
  qed
qed

lemma fold_P_min_le_items:
  "x \<in> set xs \<Longrightarrow> fst (fold (\<lambda>x m. if P_less x m then x else m) xs a) \<le> fst x"
proof (induction xs arbitrary: a)
  case Nil
  then show ?case by simp
next
  case (Cons y ys)
  let ?a' = "if P_less y a then y else a"
  show ?case
  proof (cases "x = y")
    case True
    have "fst ?a' \<le> fst y" by (auto simp: P_less_def)
    with fold_P_min_le_init [of ys ?a'] True show ?thesis by simp
  next
    case False
    with Cons.prems have "x \<in> set ys" by simp
    from Cons.IH [OF this, of ?a'] show ?thesis by simp
  qed
qed

lemma pq_top_in: "pq \<noteq> [] \<Longrightarrow> pq_top pq \<in> set pq"
  using fold_P_min_in [of "tl pq" "hd pq"] by (cases pq) (auto simp: pq_top_def)

lemma pq_top_least: "x \<in> set pq \<Longrightarrow> fst (pq_top pq) \<le> fst x"
  using fold_P_min_le_init [of "tl pq" "hd pq"] fold_P_min_le_items [of x "tl pq" "hd pq"]
  by (cases pq) (auto simp: pq_top_def)

lemma mset_pq_pop: "pq \<noteq> [] \<Longrightarrow> mset (pq_pop pq) = mset pq - {#pq_top pq#}"
  by (simp add: pq_pop_def)

lemma length_pq_pop: "pq \<noteq> [] \<Longrightarrow> length (pq_pop pq) < length pq"
  using pq_top_in [of pq] by (simp add: pq_pop_def length_remove1)

lemma pq_push_refines:
  "True \<and> mset (pq_push k v q) = add_mset (k, v) (mset q)"
  by (simp add: pq_push_def)

lemma dijkstra_loop_correct:
  assumes wf: "wf_graph g" and s: "s < length g" and no: "no_overflow g s"
  shows "sssp_inv g s dist (mset pq) \<Longrightarrow> \<exists>r. dijkstra_loop g dist pq = Some r \<and> final_ok g s r"
proof -
  define R where "R = inv_image (less_than <*lex*> less_than)
    (\<lambda>(dist :: u64 list, pq :: P list). (sum_list (map unat dist), length pq))"
  have wfR: "wf R" unfolding R_def by (intro wf_inv_image wf_lex_prod wf_less_than)
  from wfR show "sssp_inv g s dist (mset pq) \<Longrightarrow> \<exists>r. dijkstra_loop g dist pq = Some r \<and> final_ok g s r"
  proof (induction "(dist, pq)" arbitrary: dist pq rule: wf_induct_rule)
    case less
    note inv = less.prems
    show ?case
    proof (cases "pq = []")
      case True
      then have "dijkstra_loop g dist pq = Some dist" by (subst dijkstra_loop.simps) simp
      moreover have "final_ok g s dist" using sssp_inv_final [OF wf s] inv True by simp
      ultimately show ?thesis by simp
    next
      case False
      let ?d = "fst (pq_top pq)" and ?u = "snd (pq_top pq)"
      have mem: "(?d, ?u) \<in># mset pq" using pq_top_in [OF False] by simp
      have least: "\<forall>x\<in>#mset pq. ?d \<le> fst x" using pq_top_least by simp
      have pop: "mset (pq_pop pq) = mset pq - {#(?d, ?u)#}" using mset_pq_pop [OF False] by simp
      show ?thesis
      proof (cases "?d = dist ! ?u")
        case stale: False
        have "sssp_inv g s dist (mset (pq_pop pq))"
          using sssp_inv_stale [OF inv stale] pop by simp
        moreover have "((dist, pq_pop pq), (dist, pq)) \<in> R"
          using length_pq_pop [OF False] by (simp add: R_def)
        ultimately obtain r where "dijkstra_loop g dist (pq_pop pq) = Some r" "final_ok g s r"
          using less.hyps by blast
        moreover have "dijkstra_loop g dist pq = dijkstra_loop g dist (pq_pop pq)"
          using False stale by (subst dijkstra_loop.simps) (simp add: Let_def)
        ultimately show ?thesis by simp
      next
        case True
        let ?r = "relax_edges pq_push ?d (g ! ?u) (dist, pq_pop pq)"
        let ?rm = "relax_edges mpush ?d (g ! ?u) (dist, mset pq - {#(?d, ?u)#})"
        have ref: "fst ?r = fst ?rm" "mset (snd ?r) = snd ?rm"
          using relax_edges_refine [of "\<lambda>_. True" "\<lambda>_. True" pq_push mset "pq_pop pq" "g ! ?u" ?d dist]
            pop by (simp_all add: pq_push_def)
        have "sssp_inv g s (fst ?rm) (snd ?rm)"
          by (rule sssp_inv_process [OF wf s no inv least mem True])
        then have inv': "sssp_inv g s (fst ?r) (mset (snd ?r))" using ref by simp
        have u: "?u < length g" and len: "length dist = length g"
          using inv mem by (auto simp: sssp_inv_def)
        have tos: "\<forall>e\<in>set (g ! ?u). to e < length dist"
          using wf u len by (auto dest: wf_graphD)
        have "((fst ?r, snd ?r), (dist, pq)) \<in> R"
          using relax_edges_measure [OF tos, of pq_push ?d "pq_pop pq"] length_pq_pop [OF False]
          by (auto simp: R_def case_prod_unfold)
        with inv' obtain r where "dijkstra_loop g (fst ?r) (snd ?r) = Some r" "final_ok g s r"
          using less.hyps by blast
        moreover have "dijkstra_loop g dist pq = dijkstra_loop g (fst ?r) (snd ?r)"
          using False True by (subst dijkstra_loop.simps) (simp add: Let_def)
        ultimately show ?thesis by simp
      qed
    qed
  qed
qed

lemma dijkstra_correct:
  assumes "wf_graph g" and "s < length g" and "no_overflow g s"
  shows "\<exists>r. dijkstra g s = Some r \<and> final_ok g s r"
  unfolding dijkstra_def
  using dijkstra_loop_correct [OF assms, of "(replicate (length g) INF64)[s := 0]" "pq_push 0 s []"]
    sssp_inv_initial [OF assms(2)]
  by (simp add: pq_push_def)

section \<open>SSSP on the radix heap\<close>

lemma heap_empty_iff: "heap_inv h \<Longrightarrow> heap_empty h \<longleftrightarrow> entries h = {#}"
  by (simp add: heap_inv_def heap_empty_def)

lemma relax_traced_project:
  "fst (relax_edges push_traced d es (dist, q)) = fst (relax_edges push d es (dist, fst q))
   \<and> fst (snd (relax_edges push_traced d es (dist, q))) = snd (relax_edges push d es (dist, fst q))"
proof (induction es arbitrary: dist q)
  case Nil
  show ?case by (simp add: relax_edges_Nil)
next
  case (Cons e es)
  show ?case
  proof (cases "d + weight e < dist ! to e")
    case True
    with Cons.IH [of "dist[to e := d + weight e]" "push_traced (d + weight e) (to e) q"]
    show ?thesis by (simp add: relax_edges_Cons relax_eq push_traced_def)
  next
    case False
    with Cons.IH [of dist q] show ?thesis by (simp add: relax_edges_Cons relax_eq)
  qed
qed

lemma push_traced_refines:
  assumes "heap_inv (fst q) \<and> monotone_heap (fst q) \<and> last_key (fst q) = d \<and> pushes_ok (snd q)"
    and "d \<le> k"
  shows "(heap_inv (fst (push_traced k v q)) \<and> monotone_heap (fst (push_traced k v q))
          \<and> last_key (fst (push_traced k v q)) = d \<and> pushes_ok (snd (push_traced k v q)))
         \<and> entries (fst (push_traced k v q)) = add_mset (k, v) (entries (fst q))"
proof -
  have len: "length (buckets (fst q)) = 65" using assms(1) by (simp add: heap_inv_def)
  show ?thesis
    using assms len
    by (simp add: push_traced_def heap_inv_push monotone_heap_push push_fields entries_push
        pushes_ok_def)
qed

lemma pushes_ok_relocate: "pushes_ok lg \<Longrightarrow> pushes_ok (lg @ (if b then [RelocateCall] else []))"
  by (simp add: pushes_ok_def)

lemma bsb_loop_correct:
  assumes wf: "wf_graph g" and s: "s < length g" and no: "no_overflow g s"
  shows "sssp_inv g s dist (entries h) \<Longrightarrow> heap_inv h \<Longrightarrow> monotone_heap h \<Longrightarrow> pushes_ok lg \<Longrightarrow>
    \<exists>r lg'. bsb_loop_traced g dist (h, lg) = Some (Inr (r, lg')) \<and> bsb_loop g dist h = Some (Inr r)
      \<and> final_ok g s r \<and> pushes_ok lg'"
proof -
  define R where "R = inv_image (less_than <*lex*> less_than)
    (\<lambda>(dist :: u64 list, h :: RadixHeap, lg :: event list). (sum_list (map unat dist), size (entries h)))"
  have wfR: "wf R" unfolding R_def by (intro wf_inv_image wf_lex_prod wf_less_than)
  from wfR show "sssp_inv g s dist (entries h) \<Longrightarrow> heap_inv h \<Longrightarrow> monotone_heap h \<Longrightarrow> pushes_ok lg \<Longrightarrow>
    \<exists>r lg'. bsb_loop_traced g dist (h, lg) = Some (Inr (r, lg')) \<and> bsb_loop g dist h = Some (Inr r)
      \<and> final_ok g s r \<and> pushes_ok lg'"
  proof (induction "(dist, h, lg)" arbitrary: dist h lg rule: wf_induct_rule)
    case less
    note inv = less.prems(1) and hinv = less.prems(2) and mono = less.prems(3) and lok = less.prems(4)
    show ?case
    proof (cases "entries h = {#}")
      case True
      then have e: "heap_empty h" using hinv by (simp add: heap_empty_iff)
      then have "bsb_loop_traced g dist (h, lg) = Some (Inr (dist, lg))"
        by (subst bsb_loop_traced.simps) simp
      moreover have "bsb_loop g dist h = Some (Inr dist)"
        using e by (subst bsb_loop.simps) simp
      moreover have "final_ok g s dist" using sssp_inv_final [OF wf s] inv True by simp
      ultimately show ?thesis using lok by simp
    next
      case False
      then have ne: "\<not> heap_empty h" using hinv by (simp add: heap_empty_iff)
      from pop_props [OF hinv False] mono obtain e h' where
        p: "pop h = Inr (e, h')" "e \<in># entries h" "entries h' = entries h - {#e#}"
        "heap_inv h'" "fst e = last_key h'" "\<forall>x\<in>#entries h. fst e \<le> fst x"
        by blast
      have mono': "monotone_heap h'" by (rule monotone_heap_pop [OF hinv mono p(1)])
      let ?d = "fst e" and ?u = "snd e"
      let ?lg1 = "lg @ (if buckets h ! 0 = [] then [RelocateCall] else [])"
      have lok1: "pushes_ok ?lg1" using lok by (rule pushes_ok_relocate)
      have popt: "pop_traced (h, lg) = Inr (e, h', ?lg1)" using p(1) by (simp add: pop_traced_def)
      have mem: "(?d, ?u) \<in># entries h" using p(2) by simp
      have "0 < size (entries h)" using False by (simp add: nonempty_has_size)
      moreover have "size (entries h') = size (entries h) - 1"
        using p(2,3) by (simp add: size_Diff_singleton)
      ultimately have smaller: "size (entries h') < size (entries h)" by linarith
      show ?thesis
      proof (cases "?d = dist ! ?u")
        case stale: False
        have "sssp_inv g s dist (entries h')"
          using sssp_inv_stale [OF inv stale] p(3) by simp
        moreover have "((dist, h', ?lg1), (dist, h, lg)) \<in> R"
          using smaller by (simp add: R_def)
        ultimately obtain r lg' where r: "bsb_loop_traced g dist (h', ?lg1) = Some (Inr (r, lg'))"
          "bsb_loop g dist h' = Some (Inr r)" "final_ok g s r" "pushes_ok lg'"
          using less.hyps [OF _ _ p(4) mono' lok1] by blast
        have "bsb_loop_traced g dist (h, lg) = bsb_loop_traced g dist (h', ?lg1)"
          using ne stale popt by (subst bsb_loop_traced.simps) (simp add: Let_def)
        moreover have "bsb_loop g dist h = bsb_loop g dist h'"
          using ne stale p(1) by (subst bsb_loop.simps) (simp add: Let_def)
        ultimately show ?thesis using r by simp
      next
        case True
        let ?rt = "relax_edges push_traced ?d (g ! ?u) (dist, h', ?lg1)"
        let ?rp = "relax_edges push ?d (g ! ?u) (dist, h')"
        let ?rm = "relax_edges mpush ?d (g ! ?u) (dist, entries h - {#(?d, ?u)#})"
        have u: "?u < length g" and len: "length dist = length g"
          using inv mem by (auto simp: sssp_inv_def)
        have tos: "\<forall>x\<in>set (g ! ?u). to x < length dist"
          using wf u len by (auto dest: wf_graphD)
        have sp: "shortest g s ?u (unat ?d)"
          by (rule popped_is_shortest [OF wf s inv p(6) mem True])
        have keys: "\<forall>x\<in>set (g ! ?u). ?d \<le> ?d + weight x"
        proof
          fix x assume "x \<in> set (g ! ?u)"
          with no sp u have "unat ?d + unat (weight x) < 2 ^ 64" by (auto simp: no_overflow_def)
          then have "unat (?d + weight x) = unat ?d + unat (weight x)" by (rule unat_add_no_overflow)
          then show "?d \<le> ?d + weight x" by (simp add: word_le_nat_alt)
        qed
        have I1: "heap_inv (fst (h', ?lg1)) \<and> monotone_heap (fst (h', ?lg1))
            \<and> last_key (fst (h', ?lg1)) = ?d \<and> pushes_ok (snd (h', ?lg1))"
          using p(4,5) mono' lok1 by simp
        from relax_edges_refine [of
            "\<lambda>q. heap_inv (fst q) \<and> monotone_heap (fst q) \<and> last_key (fst q) = ?d \<and> pushes_ok (snd q)"
            "\<lambda>k. ?d \<le> k" push_traced "\<lambda>q. entries (fst q)" "(h', ?lg1)" "g ! ?u" ?d dist,
            OF push_traced_refines I1 keys]
        have ref: "heap_inv (fst (snd ?rt))" "monotone_heap (fst (snd ?rt))" "pushes_ok (snd (snd ?rt))"
          "fst ?rt = fst ?rm" "entries (fst (snd ?rt)) = snd ?rm"
          using p(3) by simp_all
        have "sssp_inv g s (fst ?rm) (snd ?rm)"
          by (rule sssp_inv_process [OF wf s no inv p(6) mem True])
        then have inv': "sssp_inv g s (fst ?rt) (entries (fst (snd ?rt)))" using ref by simp
        have "?rt = (dist, h', ?lg1) \<or> sum_list (map unat (fst ?rt)) < sum_list (map unat dist)"
          by (rule relax_edges_measure [OF tos])
        then have "((fst ?rt, fst (snd ?rt), snd (snd ?rt)), (dist, h, lg)) \<in> R"
          using smaller by (auto simp: R_def case_prod_unfold)
        from less.hyps [OF this inv' ref(1,2,3)] obtain r lg' where
          r: "bsb_loop_traced g (fst ?rt) (fst (snd ?rt), snd (snd ?rt)) = Some (Inr (r, lg'))"
          "bsb_loop g (fst ?rt) (fst (snd ?rt)) = Some (Inr r)" "final_ok g s r" "pushes_ok lg'"
          by blast
        have proj: "fst ?rp = fst ?rt" "snd ?rp = fst (snd ?rt)"
          using relax_traced_project [of ?d "g ! ?u" dist "(h', ?lg1)"] by simp_all
        have "bsb_loop_traced g dist (h, lg) = bsb_loop_traced g (fst ?rt) (snd ?rt)"
          using ne True popt by (subst bsb_loop_traced.simps) (simp add: Let_def)
        moreover have "bsb_loop g dist h = bsb_loop g (fst ?rp) (snd ?rp)"
          using ne True p(1) by (subst bsb_loop.simps) (simp add: Let_def)
        ultimately show ?thesis using r proj by simp
      qed
    qed
  qed
qed

section \<open>The two algorithms agree\<close>

lemma initial_heap:
  "heap_inv (push 0 s RadixHeap_new)" "monotone_heap (push 0 s RadixHeap_new)"
  "entries (push 0 s RadixHeap_new) = {#(0, s)#}"
  "push_traced 0 s (RadixHeap_new, []) = (push 0 s RadixHeap_new, [PushCall 0 0])"
proof -
  show "heap_inv (push 0 s RadixHeap_new)" by (intro heap_inv_push heap_inv_new)
  have len: "length (buckets RadixHeap_new) = 65" by (simp add: RadixHeap_new_def)
  have e: "entries RadixHeap_new = {#}" by (simp add: entries_def RadixHeap_new_def)
  show "entries (push 0 s RadixHeap_new) = {#(0, s)#}" using entries_push [OF len] e by simp
  then show "monotone_heap (push 0 s RadixHeap_new)"
    by (simp add: monotone_heap_def push_fields RadixHeap_new_def)
  show "push_traced 0 s (RadixHeap_new, []) = (push 0 s RadixHeap_new, [PushCall 0 0])"
    by (simp add: push_traced_def RadixHeap_new_def)
qed

lemma bsb_correct:
  assumes "wf_graph g" and "s < length g" and "no_overflow g s"
  shows "\<exists>r lg. bsb_sssp_traced g s = Some (Inr (r, lg))
    \<and> breaking_sorting_barrier_sssp g s = Some (Inr r) \<and> final_ok g s r \<and> pushes_ok lg"
proof -
  have "pushes_ok [PushCall 0 0]" by (simp add: pushes_ok_def)
  with bsb_loop_correct [OF assms, of "(replicate (length g) INF64)[s := 0]" "push 0 s RadixHeap_new"
      "[PushCall 0 0]"] sssp_inv_initial [OF assms(2)] initial_heap [of s]
  show ?thesis by (simp add: bsb_sssp_traced_def breaking_sorting_barrier_sssp_def)
qed

lemma no_overflowI:
  assumes "\<And>u. u < length g \<Longrightarrow> \<exists>c. walk g s u c \<and> (\<forall>e\<in>set (g ! u). c + unat (weight e) < 2 ^ 64)"
  shows "no_overflow g s"
  unfolding no_overflow_def
proof (intro allI impI)
  fix u c e
  assume a: "shortest g s u c \<and> u < length g \<and> e \<in> set (g ! u)"
  with assms obtain c' where c': "walk g s u c'" "c' + unat (weight e) < 2 ^ 64" by blast
  with a have "c \<le> c'" by (simp add: shortest_def)
  with c'(2) show "c + unat (weight e) < 2 ^ 64" by simp
qed

lemma scenario_A_wf: "wf_graph scenario_A"
  by code_simp

lemma scenario_A_walks:
  "walk scenario_A 0 0 0" "walk scenario_A 0 2 1" "walk scenario_A 0 1 3" "walk scenario_A 0 3 4"
proof -
  have e: "edge 2 1 \<in> set (scenario_A ! 0)" "edge 1 2 \<in> set (scenario_A ! 2)"
    "edge 3 1 \<in> set (scenario_A ! 1)" "0 < length scenario_A" "1 < length scenario_A"
    "2 < length scenario_A"
    by (simp_all add: scenario_A_def)
  have c: "0 + unat (weight (edge 2 1)) = 1" "1 + unat (weight (edge 1 2)) = 3"
    "3 + unat (weight (edge 3 1)) = 4" "to (edge 2 1) = 2" "to (edge 1 2) = 1" "to (edge 3 1) = 3"
    by (simp_all add: edge_def)
  show w0: "walk scenario_A 0 0 0" by (rule walk_source)
  from walk_edge [OF w0 e(4) e(1)] show w2: "walk scenario_A 0 2 1" by (simp only: c)
  from walk_edge [OF w2 e(6) e(2)] show w1: "walk scenario_A 0 1 3" by (simp only: c)
  from walk_edge [OF w1 e(5) e(3)] show "walk scenario_A 0 3 4" by (simp only: c)
qed

lemma scenario_A_no_overflow: "no_overflow scenario_A 0"
proof (rule no_overflowI)
  fix u assume "u < length scenario_A"
  then have "u = 0 \<or> u = 1 \<or> u = 2 \<or> u = 3" by (auto simp: scenario_A_def)
  then show "\<exists>c. walk scenario_A 0 u c \<and> (\<forall>e\<in>set (scenario_A ! u). c + unat (weight e) < 2 ^ 64)"
  proof (elim disjE)
    assume "u = 0"
    then show ?thesis using scenario_A_walks(1)
      by (intro exI [of _ 0]) (simp add: scenario_A_def edge_def)
  next
    assume "u = 1"
    then show ?thesis using scenario_A_walks(3)
      by (intro exI [of _ 3]) (simp add: scenario_A_def edge_def)
  next
    assume "u = 2"
    then show ?thesis using scenario_A_walks(2)
      by (intro exI [of _ 1]) (simp add: scenario_A_def edge_def)
  next
    assume "u = 3"
    then show ?thesis using scenario_A_walks(4)
      by (intro exI [of _ 4]) (simp add: scenario_A_def edge_def)
  qed
qed

text \<open>
  C1, as the code has it: on a graph whose edges stay inside it, from a valid source, and
  provided no relaxation wraps around (for every node \<open>u\<close> with shortest distance \<open>c\<close> from
  the source and every edge out of \<open>u\<close> with weight \<open>w\<close>, \<open>c + w < 2^64\<close>), both algorithms
  terminate and return the same distance vector.
\<close>

theorem sssp_algorithms_agree:
  assumes "wf_graph g" and "source < length g" and "no_overflow g source"
  shows "\<exists>dist. dijkstra g source = Some dist
    \<and> breaking_sorting_barrier_sssp g source = Some (Inr dist)"
proof -
  from dijkstra_correct [OF assms] obtain r1 where
    r1: "dijkstra g source = Some r1" "final_ok g source r1" by blast
  from bsb_correct [OF assms] obtain r2 where
    r2: "breaking_sorting_barrier_sssp g source = Some (Inr r2)" "final_ok g source r2" by blast
  have "r1 = r2" using final_ok_unique [OF r1(2) r2(2)] .
  with r1(1) r2(1) show ?thesis by simp
qed

theorem sssp_algorithms_agree_witness:
  "wf_graph scenario_A \<and> 0 < length scenario_A \<and> no_overflow scenario_A 0
   \<and> dijkstra scenario_A 0 = Some [0, 3, 1, 4]
   \<and> breaking_sorting_barrier_sssp scenario_A 0 = Some (Inr [0, 3, 1, 4])"
proof -
  have l: "0 < length scenario_A" by (simp add: scenario_A_def)
  have d: "dijkstra scenario_A 0 = Some [0, 3, 1, 4]" by code_simp
  from sssp_algorithms_agree [OF scenario_A_wf l scenario_A_no_overflow] d
  show ?thesis using scenario_A_wf l scenario_A_no_overflow by simp
qed

text \<open>
  With wrap-around the two algorithms can disagree. In \<open>overflow_graph\<close> node 2 is at
  distance \<open>2^64 - 12\<close>; the edge of weight 13 to node 3 wraps to the key 1, which the
  radix heap files in bucket 64, so it pops node 4 at \<open>2^64 - 10\<close> first and relaxes the
  edge to node 5 to 0, where the binary heap ends with 11.
\<close>

theorem sssp_overflow_counterexample:
  "wf_graph overflow_graph \<and> 0 < length overflow_graph
   \<and> dijkstra overflow_graph 0 =
       Some [0, 9223372036854775807, 18446744073709551604, 1, 1, 11]
   \<and> breaking_sorting_barrier_sssp overflow_graph 0 =
       Some (Inr [0, 9223372036854775807, 18446744073709551604, 1, 1, 0])"
  by code_simp

text \<open>
  C3, as the code has it: under the same conditions the run on the radix heap terminates,
  and every key it passes to \<^verbatim>\<open>push\<close> is at least \<^verbatim>\<open>last\<close> at the time of the call.
\<close>

theorem bsb_pushes_monotone:
  assumes "wf_graph g" and "source < length g" and "no_overflow g source"
  shows "\<exists>dist lg. bsb_sssp_traced g source = Some (Inr (dist, lg))
    \<and> breaking_sorting_barrier_sssp g source = Some (Inr dist) \<and> pushes_ok lg"
  using bsb_correct [OF assms] by blast

theorem bsb_pushes_monotone_witness:
  "wf_graph scenario_A \<and> 0 < length scenario_A \<and> no_overflow scenario_A 0
   \<and> bsb_sssp_traced scenario_A 0 =
       Some (Inr ([0, 3, 1, 4],
         [PushCall 0 0, PushCall 4 0, PushCall 1 0, RelocateCall, PushCall 3 1, RelocateCall,
          PushCall 4 3, RelocateCall]))
   \<and> pushes_ok [PushCall 0 0, PushCall 4 0, PushCall 1 0, RelocateCall, PushCall 3 1, RelocateCall,
          PushCall 4 3, RelocateCall]"
proof -
  have l: "0 < length scenario_A" by (simp add: scenario_A_def)
  have t: "bsb_sssp_traced scenario_A 0 =
       Some (Inr ([0, 3, 1, 4],
         [PushCall 0 0, PushCall 4 0, PushCall 1 0, RelocateCall, PushCall 3 1, RelocateCall,
          PushCall 4 3, RelocateCall]))" by code_simp
  from bsb_pushes_monotone [OF scenario_A_wf l scenario_A_no_overflow] t
  show ?thesis using scenario_A_wf l scenario_A_no_overflow by simp
qed

text \<open>
  On \<open>overflow_graph\<close> the run pushes the key 1 while \<^verbatim>\<open>last\<close> is \<open>2^64 - 12\<close>.
\<close>

theorem bsb_push_below_last_counterexample:
  "wf_graph overflow_graph \<and> 0 < length overflow_graph
   \<and> bsb_sssp_traced overflow_graph 0 =
       Some (Inr ([0, 9223372036854775807, 18446744073709551604, 1, 1, 0],
         [PushCall 0 0, PushCall 9223372036854775807 0, RelocateCall,
          PushCall 18446744073709551604 9223372036854775807, RelocateCall,
          PushCall 1 18446744073709551604,
          PushCall 18446744073709551606 18446744073709551604, RelocateCall,
          PushCall 0 18446744073709551606, RelocateCall, RelocateCall,
          PushCall 1 1]))
   \<and> (1 :: u64) < 18446744073709551604"
  by code_simp

end
